theory Spec2Isabelle
  imports Complex_Main
begin

section \<open>Scoring and combo state (App.tsx)\<close>

text \<open>
  The App component keeps four React state cells: score, combo, multiplier and health.
  JavaScript numbers that only ever hold integers here are modelled as \<open>int\<close>.
  The state setters are applied in the order in which the handlers call them.
  \<open>endGameRequests\<close> counts the calls \<open>setTimeout(() => endGame(false), 0)\<close> made so far.
\<close>

datatype GameStatus = LOADING | IDLE | PLAYING | GAME_OVER | VICTORY

record score_state =
  score :: int
  combo :: int
  multiplier :: int
  health :: int
  endGameRequests :: nat

text \<open>The initial values of the \<open>useState\<close> cells.\<close>

definition initial_score :: score_state where
  "initial_score = \<lparr>score = 0, combo = 0, multiplier = 1, health = 100, endGameRequests = 0\<rparr>"

text \<open>
  \<open>handleNoteHit\<close> is built by \<open>useCallback(..., [multiplier])\<close>: the \<open>multiplier\<close> it
  multiplies the points with is the value captured by the closure when the callback was
  created, passed here as the first argument \<open>m\<close>. The note argument (a reference to a
  chart note, here its chart index) is not read by the handler.
\<close>

definition handleNoteHit :: "int \<Rightarrow> nat \<Rightarrow> bool \<Rightarrow> score_state \<Rightarrow> score_state" where
  "handleNoteHit m note goodCut s =
     (let points = (if goodCut then 100 + 50 else 100);
          newCombo = combo s + 1;
          newMultiplier =
            (if newCombo > 30 then 8
             else if newCombo > 20 then 4
             else if newCombo > 10 then 2
             else 1)
      in s\<lparr>combo := newCombo,
           multiplier := newMultiplier,
           score := score s + points * m,
           health := min 100 (health s + 2)\<rparr>)"

definition handleNoteMiss :: "nat \<Rightarrow> score_state \<Rightarrow> score_state" where
  "handleNoteMiss note s =
     (let newHealth = health s - 15
      in if newHealth \<le> 0
         then s\<lparr>combo := 0, multiplier := 1, health := 0,
                endGameRequests := Suc (endGameRequests s)\<rparr>
         else s\<lparr>combo := 0, multiplier := 1, health := newHealth\<rparr>)"

text \<open>
  The callbacks of the scene, in the order the frame callback makes them: \<open>onNoteHit\<close>,
  \<open>onNoteMiss\<close> and \<open>onSongEnd\<close>. A note is identified by its index in the chart.
\<close>

datatype event = Hit nat bool | Miss nat | SongEnd

text \<open>
  One callback of the scene handled by the App. Every note the judgement loop hits in one
  frame goes through the same \<open>onNoteHit\<close> closure, the \<open>handleNoteHit\<close> of the last
  render; \<open>m\<close> is the multiplier that closure holds. \<open>onSongEnd\<close> calls \<open>endGame(true)\<close>,
  which leaves the scoring cells alone.
\<close>

fun on_event :: "int \<Rightarrow> score_state \<Rightarrow> event \<Rightarrow> score_state" where
  "on_event m s (Hit n goodCut) = handleNoteHit m n goodCut s"
| "on_event m s (Miss n) = handleNoteMiss n s"
| "on_event m s SongEnd = s"

text \<open>The callbacks of one frame, all handled through the closure that holds \<open>m\<close>.\<close>

definition run_events :: "int \<Rightarrow> event list \<Rightarrow> score_state \<Rightarrow> score_state" where
  "run_events m evs s = foldl (on_event m) s evs"

text \<open>
  A frame whose callbacks arrive after the App has rendered the state \<open>s\<close>: the closure
  holds the multiplier of \<open>s\<close> for the whole frame. A list of frames, with a render
  between one frame and the next.
\<close>

definition score_frame :: "event list \<Rightarrow> score_state \<Rightarrow> score_state" where
  "score_frame evs s = run_events (multiplier s) evs s"

definition score_frames :: "event list list \<Rightarrow> score_state \<Rightarrow> score_state" where
  "score_frames fs s = foldl (\<lambda>s' evs. score_frame evs s') s fs"

text \<open>
  The scoring states the handlers can produce, whatever multiplier each closure captured.
\<close>

inductive reachable_score :: "score_state \<Rightarrow> bool" where
  start: "reachable_score initial_score"
| hit: "reachable_score s \<Longrightarrow> reachable_score (handleNoteHit m n g s)"
| miss: "reachable_score s \<Longrightarrow> reachable_score (handleNoteMiss n s)"

text \<open>The multiplier table and the award formula as the specification words them.\<close>

definition spec_multiplier :: "int \<Rightarrow> int" where
  "spec_multiplier c = (if c \<le> 10 then 1 else if c \<le> 20 then 2 else if c \<le> 30 then 4 else 8)"

definition quality_bonus :: "bool \<Rightarrow> real" where
  "quality_bonus good = (if good then 0.5 else 0)"

definition spec_award :: "bool \<Rightarrow> int \<Rightarrow> real" where
  "spec_award good m = 100 * (1 + quality_bonus good) * real_of_int m"

text \<open>The award the formula gives for one callback when the multiplier is \<open>m\<close>.\<close>

fun award_of :: "int \<Rightarrow> event \<Rightarrow> real" where
  "award_of m (Hit n good) = spec_award good m"
| "award_of m (Miss n) = 0"
| "award_of m SongEnd = 0"

section \<open>Chart data and constants (types.ts, constants.ts)\<close>

text \<open>
  Numbers that carry times, coordinates and speeds are modelled as \<open>real\<close>; the
  \<open>THREE.Vector3\<close> methods used by the judgement loop are written out over the reals.
\<close>

datatype Vector3 = Vector3 (vx: real) (vy: real) (vz: real)

definition distanceToSquared :: "Vector3 \<Rightarrow> Vector3 \<Rightarrow> real" where
  "distanceToSquared a b =
     (let dx = vx a - vx b; dy = vy a - vy b; dz = vz a - vz b
      in dx * dx + dy * dy + dz * dz)"

definition distanceTo :: "Vector3 \<Rightarrow> Vector3 \<Rightarrow> real" where
  "distanceTo a b = sqrt (distanceToSquared a b)"

definition length_v :: "Vector3 \<Rightarrow> real" where
  "length_v a = sqrt (vx a * vx a + vy a * vy a + vz a * vz a)"

definition multiplyScalar :: "Vector3 \<Rightarrow> real \<Rightarrow> Vector3" where
  "multiplyScalar a s = Vector3 (vx a * s) (vy a * s) (vz a * s)"

definition divideScalar :: "Vector3 \<Rightarrow> real \<Rightarrow> Vector3" where
  "divideScalar a s = multiplyScalar a (1 / s)"

text \<open>\<open>normalize\<close> divides by \<open>length() || 1\<close>: the zero vector stays the zero vector.\<close>

definition normalize :: "Vector3 \<Rightarrow> Vector3" where
  "normalize a = divideScalar a (if length_v a = 0 then 1 else length_v a)"

definition dot :: "Vector3 \<Rightarrow> Vector3 \<Rightarrow> real" where
  "dot a b = vx a * vx b + vy a * vy b + vz a * vz b"

text \<open>\<open>THREE.MathUtils.lerp\<close>.\<close>

definition lerp :: "real \<Rightarrow> real \<Rightarrow> real \<Rightarrow> real" where
  "lerp x y t = (1 - t) * x + t * y"

datatype HandType = left_hand | right_hand

datatype CutDirection = UP | DOWN | LEFT | RIGHT | ANY

datatype NoteTier = TIER_1 | TIER_2 | TIER_3

datatype NoteAxis = INSTITUTION | ACADEMIC | DISCOURSE | NETWORK

datatype GateType = POSITIVE | NEGATIVE | NEUTRAL

record GateData =
  id_g :: string
  time_g :: real
  label :: string
  subLabel :: string
  type_g :: GateType

text \<open>
  The optional fields \<open>hit\<close> and \<open>missed\<close> are only ever tested for truthiness, so an
  absent flag is \<open>False\<close>; an absent \<open>hitTime\<close> is \<open>None\<close>.
\<close>

record NoteData =
  id_n :: string
  time :: real
  lineIndex :: nat
  lineLayer :: nat
  type_n :: HandType
  cutDirection :: CutDirection
  tier :: NoteTier
  axis :: NoteAxis
  hit :: bool
  missed :: bool
  hitTime :: "real option"

record HandPositions =
  left :: "Vector3 option"
  right :: "Vector3 option"
  leftVelocity :: Vector3
  rightVelocity :: Vector3

definition SPAWN_Z :: real where "SPAWN_Z = - 40"
definition PLAYER_Z :: real where "PLAYER_Z = 0"
definition MISS_Z :: real where "MISS_Z = 5"
definition NOTE_SPEED :: real where "NOTE_SPEED = 12"
definition LANE_WIDTH :: real where "LANE_WIDTH = 0.8"
definition SONG_BPM :: real where "SONG_BPM = 140"
definition BEAT_TIME :: real where "BEAT_TIME = 60 / SONG_BPM"

definition LANE_X_POSITIONS :: "real list" where
  "LANE_X_POSITIONS = [- 1.5 * LANE_WIDTH, - 0.5 * LANE_WIDTH, 0.5 * LANE_WIDTH, 1.5 * LANE_WIDTH]"

definition LAYER_Y_POSITIONS :: "real list" where
  "LAYER_Y_POSITIONS = [0.8, 1.6, 2.4]"

fun DIRECTION_VECTORS :: "CutDirection \<Rightarrow> Vector3" where
  "DIRECTION_VECTORS UP = Vector3 0 1 0"
| "DIRECTION_VECTORS DOWN = Vector3 0 (- 1) 0"
| "DIRECTION_VECTORS LEFT = Vector3 (- 1) 0 0"
| "DIRECTION_VECTORS RIGHT = Vector3 1 0 0"
| "DIRECTION_VECTORS ANY = Vector3 0 0 0"

definition GATES :: "GateData list" where
  "GATES =
    [\<lparr>id_g = ''gate-1'', time_g = 12, label = ''SCANDAL'', subLabel = ''The Awakening'', type_g = NEGATIVE\<rparr>,
     \<lparr>id_g = ''gate-2'', time_g = 12, label = ''ELITE COURSE'', subLabel = ''The Awakening'', type_g = POSITIVE\<rparr>,
     \<lparr>id_g = ''gate-3'', time_g = 12, label = ''DISCOVERY'', subLabel = ''The Awakening'', type_g = POSITIVE\<rparr>,
     \<lparr>id_g = ''gate-4'', time_g = 34, label = ''EXPULSION'', subLabel = ''The Conflict'', type_g = NEGATIVE\<rparr>,
     \<lparr>id_g = ''gate-5'', time_g = 34, label = ''ACCLAIM'', subLabel = ''The Conflict'', type_g = POSITIVE\<rparr>,
     \<lparr>id_g = ''gate-6'', time_g = 34, label = ''TERMINATION'', subLabel = ''The Conflict'', type_g = NEGATIVE\<rparr>,
     \<lparr>id_g = ''gate-7'', time_g = 56, label = ''HIATUS'', subLabel = ''The Establishment'', type_g = NEUTRAL\<rparr>,
     \<lparr>id_g = ''gate-8'', time_g = 56, label = ''MUSEUM'', subLabel = ''The Establishment'', type_g = POSITIVE\<rparr>,
     \<lparr>id_g = ''gate-9'', time_g = 56, label = ''BIENNALE'', subLabel = ''The Establishment'', type_g = POSITIVE\<rparr>]"

text \<open>Reading a JavaScript array: an index outside the array gives \<open>undefined\<close>.\<close>

definition at_index :: "'a list \<Rightarrow> nat \<Rightarrow> 'a option" where
  "at_index xs i = (if i < length xs then Some (xs ! i) else None)"

section \<open>The game scene (GameScene.tsx)\<close>

text \<open>
  The mutable state of a mounted scene. \<open>notesState\<close> is the chart array handed to
  \<open>useState\<close>; its note objects are the objects of \<open>DEMO_CHART\<close>, and
  \<open>activeNotesRef.current\<close> holds references to the same objects, modelled as chart
  indices in \<open>activeNotes\<close>. \<open>currentTimeState\<close> is the React state cell \<open>currentTime\<close>.
\<close>

record scene =
  notesState :: "NoteData list"
  activeNotes :: "nat list"
  nextNoteIndex :: nat
  shakeIntensity :: real
  currentTimeState :: real

definition initial_scene :: "NoteData list \<Rightarrow> scene" where
  "initial_scene chart =
     \<lparr>notesState = chart, activeNotes = [], nextNoteIndex = 0, shakeIntensity = 0,
      currentTimeState = 0\<rparr>"

record audio =
  currentTime :: real
  ended :: bool

text \<open>
  What one call of the frame callback reads from outside the scene: the \<open>gameStatus\<close>
  prop, the audio element (if any), the hand samples, the frame's \<open>delta\<close>, and whether
  the camera is mounted.
\<close>

record frame_input =
  gameStatus :: GameStatus
  audioRef :: "audio option"
  handPositionsRef :: HandPositions
  delta :: real
  cameraRef :: bool

definition spawnAheadTime :: real where
  "spawnAheadTime = \<bar>SPAWN_Z - PLAYER_Z\<bar> / NOTE_SPEED"

text \<open>The spawn loop: \<open>while (nextNoteIndexRef.current < notesState.length) ...\<close>.\<close>

function spawn_loop :: "real \<Rightarrow> scene \<Rightarrow> scene" where
  "spawn_loop t st =
     (if nextNoteIndex st < length (notesState st)
      then if time (notesState st ! nextNoteIndex st) - spawnAheadTime \<le> t
           then spawn_loop t
                  (st\<lparr>activeNotes := activeNotes st @ [nextNoteIndex st],
                      nextNoteIndex := Suc (nextNoteIndex st)\<rparr>)
           else st
      else st)"
  by pat_completeness auto
termination
  by (relation "measure (\<lambda>(t, st). length (notesState st) - nextNoteIndex st)") auto

declare spawn_loop.simps [simp del]

definition currentZ :: "real \<Rightarrow> real \<Rightarrow> real" where
  "currentZ noteTime t = (let timeDiff = noteTime - t in PLAYER_Z - (timeDiff * NOTE_SPEED))"

text \<open>\<open>activeNotesRef.current.splice(i, 1)\<close>.\<close>

definition splice1 :: "nat \<Rightarrow> 'a list \<Rightarrow> 'a list" where
  "splice1 i xs = take i xs @ drop (Suc i) xs"

text \<open>
  \<open>handleHit\<close>: the camera shake depends on the tier; then \<open>onNoteHit\<close> is called.
\<close>

definition handleHit :: "nat \<Rightarrow> NoteData \<Rightarrow> bool \<Rightarrow> event list \<times> scene \<Rightarrow> event list \<times> scene" where
  "handleHit ref note goodCut r =
     (case r of (evs, st) \<Rightarrow>
        (evs @ [Hit ref goodCut],
         st\<lparr>shakeIntensity :=
              (if tier note = TIER_1 then 0.4 else if tier note = TIER_2 then 0.2 else 0.1)\<rparr>))"

text \<open>
  The target point \<open>vecA.set(LANE_X_POSITIONS[..], LAYER_Y_POSITIONS[..], currentZ)\<close>.
  With an index outside a table the coordinate is \<open>undefined\<close>, the distance is not a
  number and the comparison with the hit radius is false: no point, no hit.
\<close>

definition notePos :: "NoteData \<Rightarrow> real \<Rightarrow> Vector3 option" where
  "notePos note z =
     (case at_index LANE_X_POSITIONS (lineIndex note) of
        None \<Rightarrow> None
      | Some x \<Rightarrow>
          (case at_index LAYER_Y_POSITIONS (lineLayer note) of
             None \<Rightarrow> None
           | Some y \<Rightarrow> Some (Vector3 x y z)))"

definition within_radius :: "Vector3 \<Rightarrow> Vector3 option \<Rightarrow> bool" where
  "within_radius handPos p = (case p of None \<Rightarrow> False | Some q \<Rightarrow> distanceTo handPos q < 0.8)"

definition goodCut_of :: "NoteData \<Rightarrow> Vector3 \<Rightarrow> bool" where
  "goodCut_of note handVel =
     (let speed = length_v handVel
      in if cutDirection note \<noteq> ANY
         then (let requiredDir = DIRECTION_VECTORS (cutDirection note);
                   d = dot (normalize handVel) requiredDir
               in if d < 0.3 \<or> speed < 1.5 then False else True)
         else (if speed < 1.5 then False else True))"

text \<open>
  The body of the judgement loop for the entry at position \<open>i\<close> of the active list.
\<close>

definition judge_note :: "HandPositions \<Rightarrow> real \<Rightarrow> nat \<Rightarrow> event list \<times> scene \<Rightarrow> event list \<times> scene" where
  "judge_note hands t i r =
     (case r of (evs, st) \<Rightarrow>
       (let ref = activeNotes st ! i;
            note = notesState st ! ref
        in if hit note \<or> missed note then (evs, st)
           else
             (let z = currentZ (time note) t
              in if z > MISS_Z
                 then (evs @ [Miss ref],
                       st\<lparr>notesState := (notesState st)[ref := note\<lparr>missed := True\<rparr>],
                          activeNotes := splice1 i (activeNotes st)\<rparr>)
                 else if z > PLAYER_Z - 1.5 \<and> z < PLAYER_Z + 1.0
                 then
                   (let handPos = (if type_n note = left_hand then left hands else right hands);
                        handVel = (if type_n note = left_hand then leftVelocity hands
                                   else rightVelocity hands)
                    in case handPos of
                         None \<Rightarrow> (evs, st)
                       | Some hp \<Rightarrow>
                           if within_radius hp (notePos note z)
                           then
                             (let goodCut = goodCut_of note handVel;
                                  note' = note\<lparr>hit := True, hitTime := Some t\<rparr>;
                                  r' = handleHit ref note' goodCut
                                         (evs, st\<lparr>notesState := (notesState st)[ref := note']\<rparr>)
                              in (fst r', (snd r')\<lparr>activeNotes := splice1 i (activeNotes (snd r'))\<rparr>))
                           else (evs, st))
                 else (evs, st))))"

text \<open>\<open>for (let i = activeNotesRef.current.length - 1; i >= 0; i--)\<close>, with \<open>k = i + 1\<close>.\<close>

fun judge_loop :: "HandPositions \<Rightarrow> real \<Rightarrow> nat \<Rightarrow> event list \<times> scene \<Rightarrow> event list \<times> scene" where
  "judge_loop hands t 0 r = r"
| "judge_loop hands t (Suc i) r = judge_loop hands t i (judge_note hands t i r)"

text \<open>The decay of the camera shake at the top of the frame callback.\<close>

definition shake_step :: "frame_input \<Rightarrow> scene \<Rightarrow> scene" where
  "shake_step f st =
     (if shakeIntensity st > 0 \<and> cameraRef f
      then (let s = lerp (shakeIntensity st) 0 (8 * delta f)
            in st\<lparr>shakeIntensity := (if s < 0.001 then 0 else s)\<rparr>)
      else st)"

text \<open>
  One call of the frame callback. The light pulse and the camera position are rendering
  and are left out. The result is the list of callbacks made and the new scene.
\<close>

definition useFrame :: "frame_input \<Rightarrow> scene \<Rightarrow> event list \<times> scene" where
  "useFrame f st0 =
     (let st = shake_step f st0
      in case audioRef f of
           None \<Rightarrow> ([], st)
         | Some a \<Rightarrow>
             if gameStatus f \<noteq> PLAYING then ([], st)
             else
               (let t = currentTime a;
                    st1 = st\<lparr>currentTimeState := t\<rparr>
                in if ended a then ([SongEnd], st1)
                   else
                     (let st2 = spawn_loop t st1
                      in judge_loop (handPositionsRef f) t (length (activeNotes st2)) ([], st2))))"

fun run_frames :: "frame_input list \<Rightarrow> scene \<Rightarrow> event list \<times> scene" where
  "run_frames [] st = ([], st)"
| "run_frames (f # fs) st =
     (case useFrame f st of (evs, st') \<Rightarrow>
        (case run_frames fs st' of (evs', st'') \<Rightarrow> (evs @ evs', st'')))"

text \<open>
  The gate filter \<open>visibleGates\<close>, with the gate list as a parameter; \<open>now\<close> is the
  value of the state cell \<open>currentTime\<close>.
\<close>

definition visibleGates :: "real \<Rightarrow> GateData list \<Rightarrow> GateData list" where
  "visibleGates now gates =
     filter (\<lambda>g. (time_g g - now) < 10 \<and> (time_g g - now) > - 5) gates"

section \<open>Starting and ending a session (App.tsx)\<close>

text \<open>
  \<open>endGame\<close> writes the game status (and pauses the audio).
\<close>

definition endGame :: "bool \<Rightarrow> GameStatus" where
  "endGame victory = (if victory then VICTORY else GAME_OVER)"

record app =
  scoring :: score_state
  game_scene :: scene
  status :: GameStatus

text \<open>
  \<open>startGame\<close>: \<open>isCameraReady\<close> and whether \<open>audio.play()\<close> succeeded are inputs.
  The flags of the \<open>DEMO_CHART\<close> notes are the flags the scene reads. The function resets
  the audio position as well; the clock is an input of every frame here.
\<close>

definition startGame :: "bool \<Rightarrow> bool \<Rightarrow> app \<Rightarrow> app" where
  "startGame isCameraReady played a =
     (if \<not> isCameraReady then a
      else
        (let sc = (scoring a)\<lparr>score := 0, combo := 0, multiplier := 1, health := 100\<rparr>;
             gs = (game_scene a)\<lparr>notesState :=
                    map (\<lambda>n. n\<lparr>hit := False, missed := False\<rparr>) (notesState (game_scene a))\<rparr>
         in a\<lparr>scoring := sc, game_scene := gs,
              status := (if played then PLAYING else status a)\<rparr>))"

section \<open>Vocabulary for the properties of the scene\<close>

text \<open>
  The decision the loop body takes for one note, read off \<open>judge_note\<close> (lemmas
  \<open>judge_note_fst\<close>, \<open>judge_note_notes\<close> and \<open>judge_note_active\<close> prove the agreement):
  keep the note as it is, expire it, or hit it with a quality.
\<close>

definition pending :: "NoteData \<Rightarrow> bool" where
  "pending n \<longleftrightarrow> \<not> hit n \<and> \<not> missed n"

datatype decision = Keep | Expire | HitNow bool

definition hand_sample :: "HandPositions \<Rightarrow> NoteData \<Rightarrow> Vector3 option" where
  "hand_sample hands note = (if type_n note = left_hand then left hands else right hands)"

definition hand_velocity :: "HandPositions \<Rightarrow> NoteData \<Rightarrow> Vector3" where
  "hand_velocity hands note =
     (if type_n note = left_hand then leftVelocity hands else rightVelocity hands)"

definition in_window :: "real \<Rightarrow> bool" where
  "in_window z \<longleftrightarrow> z > PLAYER_Z - 1.5 \<and> z < PLAYER_Z + 1.0"

definition decide :: "HandPositions \<Rightarrow> real \<Rightarrow> NoteData \<Rightarrow> decision" where
  "decide hands t note =
     (if hit note \<or> missed note then Keep
      else if currentZ (time note) t > MISS_Z then Expire
      else if in_window (currentZ (time note) t)
      then (case hand_sample hands note of
              None \<Rightarrow> Keep
            | Some hp \<Rightarrow>
                if within_radius hp (notePos note (currentZ (time note) t))
                then HitNow (goodCut_of note (hand_velocity hands note))
                else Keep)
      else Keep)"

fun apply_decision :: "real \<Rightarrow> decision \<Rightarrow> NoteData \<Rightarrow> NoteData" where
  "apply_decision t Keep n = n"
| "apply_decision t Expire n = n\<lparr>missed := True\<rparr>"
| "apply_decision t (HitNow g) n = n\<lparr>hit := True, hitTime := Some t\<rparr>"

fun events_of :: "nat \<Rightarrow> decision \<Rightarrow> event list" where
  "events_of r Keep = []"
| "events_of r Expire = [Miss r]"
| "events_of r (HitNow g) = [Hit r g]"

text \<open>
  What one pass of the judgement loop over the references \<open>refs\<close> does, in closed form:
  the callbacks made (the loop runs from the last entry to the first), the entries that stay
  in the active list, and the note stored at chart index \<open>j\<close> afterwards.
\<close>

definition judged_events :: "HandPositions \<Rightarrow> real \<Rightarrow> NoteData list \<Rightarrow> nat list \<Rightarrow> event list" where
  "judged_events hands t notes refs =
     concat (map (\<lambda>r. events_of r (decide hands t (notes ! r))) (rev refs))"

definition kept :: "HandPositions \<Rightarrow> real \<Rightarrow> NoteData list \<Rightarrow> nat list \<Rightarrow> nat list" where
  "kept hands t notes refs = filter (\<lambda>r. decide hands t (notes ! r) = Keep) refs"

definition judged_note :: "HandPositions \<Rightarrow> real \<Rightarrow> NoteData list \<Rightarrow> nat list \<Rightarrow> nat \<Rightarrow> NoteData" where
  "judged_note hands t notes refs j =
     (if j \<in> set refs then apply_decision t (decide hands t (notes ! j)) (notes ! j)
      else notes ! j)"

text \<open>
  The lookahead and the promotion test as the specification words them; the states the
  scene can be in; the frames in which the callback reaches the spawn and judgement loops,
  and their clock reading; the cursor and the active list after the spawn loop.
\<close>

definition spec_lookahead :: real where
  "spec_lookahead = dist SPAWN_Z PLAYER_Z / NOTE_SPEED"

definition spec_due :: "real \<Rightarrow> NoteData \<Rightarrow> bool" where
  "spec_due now n \<longleftrightarrow> time n - spec_lookahead \<le> now"

definition scene_ok :: "scene \<Rightarrow> bool" where
  "scene_ok st \<longleftrightarrow>
     nextNoteIndex st \<le> length (notesState st)
     \<and> sorted_wrt (<) (activeNotes st)
     \<and> (\<forall>r\<in>set (activeNotes st). r < nextNoteIndex st)"

definition judging :: "frame_input \<Rightarrow> bool" where
  "judging f \<longleftrightarrow>
     gameStatus f = PLAYING \<and> (case audioRef f of None \<Rightarrow> False | Some a \<Rightarrow> \<not> ended a)"

definition frame_time :: "frame_input \<Rightarrow> real" where
  "frame_time f = (case audioRef f of None \<Rightarrow> 0 | Some a \<Rightarrow> currentTime a)"

definition spawned :: "real \<Rightarrow> scene \<Rightarrow> nat" where
  "spawned t st =
     nextNoteIndex st
     + length (takeWhile (\<lambda>n. time n - spawnAheadTime \<le> t)
                 (drop (nextNoteIndex st) (notesState st)))"

definition active_after_spawn :: "real \<Rightarrow> scene \<Rightarrow> nat list" where
  "active_after_spawn t st = activeNotes st @ [nextNoteIndex st..<spawned t st]"

text \<open>
  The note an event is about and the events about one note; the target point, the radius
  test and the quality rule as the specification words them; a note, hand samples and a
  playing frame used as concrete inputs.
\<close>

fun event_note :: "event \<Rightarrow> nat option" where
  "event_note (Hit r g) = Some r"
| "event_note (Miss r) = Some r"
| "event_note SongEnd = None"

definition events_for :: "nat \<Rightarrow> event list \<Rightarrow> event list" where
  "events_for r evs = filter (\<lambda>e. event_note e = Some r) evs"

definition target_point :: "NoteData \<Rightarrow> real \<Rightarrow> Vector3" where
  "target_point note t =
     Vector3 (LANE_X_POSITIONS ! lineIndex note) (LAYER_Y_POSITIONS ! lineLayer note)
       (currentZ (time note) t)"

definition spec_hand_in_radius :: "HandPositions \<Rightarrow> NoteData \<Rightarrow> real \<Rightarrow> bool" where
  "spec_hand_in_radius hands note t =
     (case hand_sample hands note of
        None \<Rightarrow> False
      | Some hp \<Rightarrow> distanceTo hp (target_point note t) < 0.8)"

definition spec_good :: "HandPositions \<Rightarrow> NoteData \<Rightarrow> bool" where
  "spec_good hands note \<longleftrightarrow>
     length_v (hand_velocity hands note) \<ge> 1.5
     \<and> (cutDirection note = ANY
        \<or> dot (normalize (hand_velocity hands note)) (DIRECTION_VECTORS (cutDirection note))
            \<ge> 0.3)"

definition example_note :: NoteData where
  "example_note =
     \<lparr>id_n = ''note-0'', time = 5, lineIndex = 1, lineLayer = 0, type_n = left_hand,
      cutDirection = ANY, tier = TIER_3, axis = INSTITUTION, hit = False, missed = False,
      hitTime = None\<rparr>"

definition example_hands :: HandPositions where
  "example_hands =
     \<lparr>left = Some (Vector3 (- 0.4) 0.9 0), right = None,
      leftVelocity = Vector3 0 2 0, rightVelocity = Vector3 0 0 0\<rparr>"

definition playing_frame :: "real \<Rightarrow> HandPositions \<Rightarrow> frame_input" where
  "playing_frame t hands =
     \<lparr>gameStatus = PLAYING, audioRef = Some \<lparr>currentTime = t, ended = False\<rparr>,
      handPositionsRef = hands, delta = 1 / 60, cameraRef = True\<rparr>"

text \<open>
  The decision a whole frame takes for the note at chart index \<open>j\<close>: the loop's decision
  when the frame judges and the note is in the active list after the spawn loop, and
  nothing otherwise.
\<close>

definition frame_decision :: "frame_input \<Rightarrow> scene \<Rightarrow> nat \<Rightarrow> decision" where
  "frame_decision f st j =
     (if judging f \<and> j \<in> set (active_after_spawn (frame_time f) st)
      then decide (handPositionsRef f) (frame_time f) (notesState st ! j)
      else Keep)"

text \<open>
  A frame in which the hit test for note \<open>n\<close> would succeed; a scene in which the example
  note is already active; hand samples with both hands absent.
\<close>

definition can_hit :: "frame_input \<Rightarrow> NoteData \<Rightarrow> bool" where
  "can_hit g n \<longleftrightarrow>
     judging g \<and> in_window (currentZ (time n) (frame_time g))
     \<and> spec_hand_in_radius (handPositionsRef g) n (frame_time g)"

definition example_active_scene :: scene where
  "example_active_scene =
     \<lparr>notesState = [example_note], activeNotes = [0], nextNoteIndex = 1, shakeIntensity = 0,
      currentTimeState = 2\<rparr>"

definition absent_hands :: HandPositions where
  "absent_hands =
     \<lparr>left = None, right = None, leftVelocity = Vector3 0 0 0, rightVelocity = Vector3 0 0 0\<rparr>"

text \<open>The clock readings of the frames of a run that reach the spawn loop, in order.\<close>

definition frame_times :: "frame_input list \<Rightarrow> real list" where
  "frame_times fs = map frame_time (filter judging fs)"

text \<open>
  An application state at the end of a lost session: the example note was promoted,
  missed and removed from the active list, and the cursor is past it.
\<close>

definition example_lost_app :: app where
  "example_lost_app =
     \<lparr>scoring = \<lparr>score = 0, combo = 0, multiplier = 1, health = 0, endGameRequests = 1\<rparr>,
      game_scene =
        \<lparr>notesState = [example_note\<lparr>missed := True\<rparr>], activeNotes = [], nextNoteIndex = 1,
         shakeIntensity = 0, currentTimeState = 6\<rparr>,
      status = GAME_OVER\<rparr>"

text \<open>
  Two notes that differ at most in tier and axis, and two scenes whose charts differ at
  most in the tiers and axes of their notes.
\<close>

definition same_gameplay :: "NoteData \<Rightarrow> NoteData \<Rightarrow> bool" where
  "same_gameplay n m \<longleftrightarrow> n\<lparr>tier := tier m, axis := axis m\<rparr> = m"

definition scene_alike :: "scene \<Rightarrow> scene \<Rightarrow> bool" where
  "scene_alike st1 st2 \<longleftrightarrow>
     list_all2 same_gameplay (notesState st1) (notesState st2)
     \<and> activeNotes st1 = activeNotes st2
     \<and> nextNoteIndex st1 = nextNoteIndex st2"

text \<open>
  The first eight notes that \<open>generateDemoChart\<close> produces (beats 4 to 16): six single
  notes, then the two notes of the first double hit, which share one time.
\<close>

definition demo_chart_head :: "NoteData list" where
  "demo_chart_head =
    [\<lparr>id_n = ''note-0'', time = 4 * BEAT_TIME, lineIndex = 1, lineLayer = 0, type_n = left_hand,
      cutDirection = ANY, tier = TIER_3, axis = INSTITUTION, hit = False, missed = False,
      hitTime = None\<rparr>,
     \<lparr>id_n = ''note-1'', time = 6 * BEAT_TIME, lineIndex = 2, lineLayer = 0, type_n = right_hand,
      cutDirection = ANY, tier = TIER_3, axis = INSTITUTION, hit = False, missed = False,
      hitTime = None\<rparr>,
     \<lparr>id_n = ''note-2'', time = 8 * BEAT_TIME, lineIndex = 1, lineLayer = 0, type_n = left_hand,
      cutDirection = ANY, tier = TIER_2, axis = INSTITUTION, hit = False, missed = False,
      hitTime = None\<rparr>,
     \<lparr>id_n = ''note-3'', time = 10 * BEAT_TIME, lineIndex = 2, lineLayer = 0, type_n = right_hand,
      cutDirection = ANY, tier = TIER_3, axis = INSTITUTION, hit = False, missed = False,
      hitTime = None\<rparr>,
     \<lparr>id_n = ''note-4'', time = 12 * BEAT_TIME, lineIndex = 1, lineLayer = 0, type_n = left_hand,
      cutDirection = ANY, tier = TIER_3, axis = INSTITUTION, hit = False, missed = False,
      hitTime = None\<rparr>,
     \<lparr>id_n = ''note-5'', time = 14 * BEAT_TIME, lineIndex = 2, lineLayer = 0, type_n = right_hand,
      cutDirection = ANY, tier = TIER_3, axis = INSTITUTION, hit = False, missed = False,
      hitTime = None\<rparr>,
     \<lparr>id_n = ''note-6'', time = 16 * BEAT_TIME, lineIndex = 0, lineLayer = 1, type_n = left_hand,
      cutDirection = ANY, tier = TIER_2, axis = ACADEMIC, hit = False, missed = False,
      hitTime = None\<rparr>,
     \<lparr>id_n = ''note-7'', time = 16 * BEAT_TIME, lineIndex = 3, lineLayer = 1, type_n = right_hand,
      cutDirection = ANY, tier = TIER_2, axis = ACADEMIC, hit = False, missed = False,
      hitTime = None\<rparr>]"

text \<open>
  The application after a first session in which the example note was promoted and missed
  in a frame at 6 s, followed by \<open>startGame\<close>.
\<close>

definition example_restart_app :: app where
  "example_restart_app =
     startGame True True
       \<lparr>scoring = score_frame
                    (fst (useFrame (playing_frame 6 absent_hands) (initial_scene [example_note])))
                    initial_score,
        game_scene = snd (useFrame (playing_frame 6 absent_hands) (initial_scene [example_note])),
        status = IDLE\<rparr>"

section \<open>Properties of the scoring state\<close>

lemma run_events_Nil: "run_events m [] s = s"
  by (simp add: run_events_def)

lemma run_events_Cons: "run_events m (e # evs) s = run_events m evs (on_event m s e)"
  by (simp add: run_events_def)

lemma run_events_snoc: "run_events m (evs @ [e]) s = on_event m (run_events m evs s) e"
  by (simp add: run_events_def)

lemma reachable_on_event: "reachable_score s \<Longrightarrow> reachable_score (on_event m s e)"
  by (cases e) (auto intro: reachable_score.intros)

lemma reachable_run_events: "reachable_score s \<Longrightarrow> reachable_score (run_events m evs s)"
  by (induction evs arbitrary: s) (auto simp: run_events_Nil run_events_Cons reachable_on_event)

lemma reachable_score_frames: "reachable_score s \<Longrightarrow> reachable_score (score_frames fs s)"
proof (induction fs arbitrary: s)
  case Nil
  then show ?case by (simp add: score_frames_def)
next
  case (Cons evs fs)
  have "reachable_score (score_frame evs s)"
    using Cons.prems by (simp add: score_frame_def reachable_run_events)
  from Cons.IH [OF this] show ?case by (simp add: score_frames_def)
qed

lemma reachable_multiplier: "reachable_score s \<Longrightarrow> multiplier s = spec_multiplier (combo s)"
  by (induction rule: reachable_score.induct)
     (auto simp: initial_score_def handleNoteHit_def handleNoteMiss_def spec_multiplier_def Let_def)

lemma reachable_health: "reachable_score s \<Longrightarrow> 0 \<le> health s \<and> health s \<le> 100"
  by (induction rule: reachable_score.induct)
     (auto simp: initial_score_def handleNoteHit_def handleNoteMiss_def Let_def)

lemma on_event_award:
  "real_of_int (score (on_event m s e)) = real_of_int (score s) + award_of m e"
  by (cases e)
     (simp_all add: handleNoteHit_def handleNoteMiss_def Let_def spec_award_def quality_bonus_def)

lemma run_events_award:
  "real_of_int (score (run_events m evs s))
     = real_of_int (score s) + sum_list (map (award_of m) evs)"
  by (induction evs arbitrary: s) (simp_all add: run_events_Nil run_events_Cons on_event_award)

lemma ten_hits:
  "score_frames
     [[Hit 0 True], [Hit 1 True], [Hit 2 True], [Hit 3 True], [Hit 4 True], [Hit 5 True],
      [Hit 6 True], [Hit 7 True], [Hit 8 True], [Hit 9 True]] initial_score
     = \<lparr>score = 1500, combo = 10, multiplier = 1, health = 100, endGameRequests = 0\<rparr>"
  by (simp add: score_frames_def score_frame_def run_events_def initial_score_def
      handleNoteHit_def Let_def)

text \<open>
  C6. Every hit increments the combo by one and sets the multiplier to the four-tier step
  function of the resulting combo (1 up to 10, 2 for 11-20, 4 for 21-30, 8 from 31);
  every miss resets the combo to 0 and the multiplier to 1 whatever the combo was.
\<close>

theorem combo_multiplier_step:
  "combo (handleNoteHit m n g s) = combo s + 1
   \<and> multiplier (handleNoteHit m n g s) = spec_multiplier (combo s + 1)
   \<and> combo (on_event m s (Hit n g)) = combo s + 1
   \<and> multiplier (on_event m s (Hit n g)) = spec_multiplier (combo s + 1)
   \<and> combo (on_event m s (Miss n)) = 0
   \<and> multiplier (on_event m s (Miss n)) = 1"
  by (simp add: handleNoteHit_def handleNoteMiss_def spec_multiplier_def Let_def)

text \<open>
  C7, as stated, fails: after ten good hits in ten frames, an eleventh good hit raises the
  multiplier to 2 but adds 150 points, not 300, because the handler multiplies with the
  multiplier its closure held before the hit.
\<close>

theorem award_stale_multiplier_counterexample:
  "real_of_int
     (score (score_frame [Hit 10 True]
               (score_frames
                  [[Hit 0 True], [Hit 1 True], [Hit 2 True], [Hit 3 True], [Hit 4 True],
                   [Hit 5 True], [Hit 6 True], [Hit 7 True], [Hit 8 True], [Hit 9 True]]
                  initial_score))
      - score (score_frames
                  [[Hit 0 True], [Hit 1 True], [Hit 2 True], [Hit 3 True], [Hit 4 True],
                   [Hit 5 True], [Hit 6 True], [Hit 7 True], [Hit 8 True], [Hit 9 True]]
                  initial_score))
     \<noteq> spec_award True
         (multiplier (score_frame [Hit 10 True]
               (score_frames
                  [[Hit 0 True], [Hit 1 True], [Hit 2 True], [Hit 3 True], [Hit 4 True],
                   [Hit 5 True], [Hit 6 True], [Hit 7 True], [Hit 8 True], [Hit 9 True]]
                  initial_score)))"
  unfolding ten_hits
  by (simp add: score_frame_def run_events_def handleNoteHit_def Let_def
      spec_award_def quality_bonus_def)

text \<open>
  C7, amended. The points added by a hit are \<open>100 * (1 + quality_bonus) * m\<close> with bonus
  0.5 for a good hit and 0 for a weak one, where \<open>m\<close> is the multiplier held by the
  handler's closure. All callbacks of one frame go through one closure, so a frame adds the
  sum of these awards over its hits, every one with the same \<open>m\<close>; when the frame follows
  the render of the state \<open>s\<close>, that \<open>m\<close> is the multiplier of \<open>s\<close>, which in every
  reachable state is the step function of the combo at the start of the frame. Neither the
  update caused by the hit itself nor that of any other judgement of the same frame enters
  the award.
\<close>

theorem award_uses_captured_multiplier:
  "real_of_int (score (handleNoteHit m n g s) - score s) = spec_award g m
   \<and> real_of_int (score (run_events m evs s) - score s) = sum_list (map (award_of m) evs)
   \<and> real_of_int (score (score_frame evs s) - score s)
       = sum_list (map (award_of (multiplier s)) evs)
   \<and> (reachable_score s \<longrightarrow>
        real_of_int (score (score_frame evs s) - score s)
          = sum_list (map (award_of (spec_multiplier (combo s))) evs))"
proof -
  have a: "real_of_int (score (handleNoteHit m n g s) - score s) = spec_award g m"
    by (simp add: handleNoteHit_def spec_award_def quality_bonus_def Let_def)
  have b: "\<And>k. real_of_int (score (run_events k evs s) - score s)
                 = sum_list (map (award_of k) evs)"
    by (simp add: run_events_award)
  have c: "real_of_int (score (score_frame evs s) - score s)
             = sum_list (map (award_of (multiplier s)) evs)"
    unfolding score_frame_def by (rule b)
  have d: "reachable_score s \<longrightarrow>
        real_of_int (score (score_frame evs s) - score s)
          = sum_list (map (award_of (spec_multiplier (combo s))) evs)"
    using c reachable_multiplier [of s] by simp
  show ?thesis using a b c d by blast
qed

text \<open>
  The two notes of a double hit, hit well in one frame at combo 10: each adds 150.
\<close>

theorem award_uses_captured_multiplier_witness:
  "reachable_score
     (score_frames
        [[Hit 0 True], [Hit 1 True], [Hit 2 True], [Hit 3 True], [Hit 4 True], [Hit 5 True],
         [Hit 6 True], [Hit 7 True], [Hit 8 True], [Hit 9 True]] initial_score)
   \<and> real_of_int
       (score (score_frame [Hit 10 True, Hit 11 True]
                 (score_frames
                    [[Hit 0 True], [Hit 1 True], [Hit 2 True], [Hit 3 True], [Hit 4 True],
                     [Hit 5 True], [Hit 6 True], [Hit 7 True], [Hit 8 True], [Hit 9 True]]
                    initial_score))
        - score (score_frames
                    [[Hit 0 True], [Hit 1 True], [Hit 2 True], [Hit 3 True], [Hit 4 True],
                     [Hit 5 True], [Hit 6 True], [Hit 7 True], [Hit 8 True], [Hit 9 True]]
                    initial_score))
       = 300"
proof -
  let ?s = "score_frames
        [[Hit 0 True], [Hit 1 True], [Hit 2 True], [Hit 3 True], [Hit 4 True], [Hit 5 True],
         [Hit 6 True], [Hit 7 True], [Hit 8 True], [Hit 9 True]] initial_score"
  have r: "reachable_score ?s"
    by (rule reachable_score_frames) (rule reachable_score.start)
  have c: "combo ?s = 10" unfolding ten_hits by simp
  from award_uses_captured_multiplier [of 1 0 True ?s "[Hit 10 True, Hit 11 True]"] r
  have "real_of_int (score (score_frame [Hit 10 True, Hit 11 True] ?s) - score ?s)
          = sum_list (map (award_of (spec_multiplier (combo ?s))) [Hit 10 True, Hit 11 True])"
    by blast
  also have "\<dots> = 300"
    unfolding c by (simp add: spec_multiplier_def spec_award_def quality_bonus_def)
  finally show ?thesis using r by blast
qed

text \<open>
  C5, amended. In every reachable scoring state health lies in [0, 100]; a hit adds 2
  capped at 100; a miss subtracts 15 floored at 0; a hit never requests the loss, and
  every miss whose penalty brings health to zero or below requests it, the first such miss
  and each later one alike. Each request asks for the same outcome, \<open>GAME_OVER\<close>.
\<close>

theorem health_bounds_and_loss:
  "reachable_score s \<Longrightarrow>
     0 \<le> health s \<and> health s \<le> 100
     \<and> health (handleNoteHit m n g s) = min 100 (health s + 2)
     \<and> health (handleNoteMiss n s) = max 0 (health s - 15)
     \<and> endGameRequests (handleNoteHit m n g s) = endGameRequests s
     \<and> endGameRequests (handleNoteMiss n s)
         = (if health s - 15 \<le> 0 then Suc (endGameRequests s) else endGameRequests s)
     \<and> endGame False = GAME_OVER"
  using reachable_health [of s]
  by (simp add: handleNoteHit_def handleNoteMiss_def endGame_def Let_def)

theorem health_bounds_and_loss_witness:
  "reachable_score initial_score
   \<and> health (handleNoteMiss 0 initial_score) = max 0 (health initial_score - 15)
   \<and> health (handleNoteMiss 0 initial_score) = 85"
  using health_bounds_and_loss [of initial_score 1 0 True] reachable_score.start
  by (simp add: initial_score_def)

section \<open>Properties of the gate window\<close>

text \<open>
  C8, as stated, fails at the edge of the window: the first gate has time 12, and at
  now = 2 = 12 - 10, inside the closed interval, the filter does not show it.
\<close>

theorem gate_closed_interval_counterexample:
  "GATES ! 0 \<notin> set (visibleGates 2 GATES)
   \<and> time_g (GATES ! 0) - 10 \<le> 2 \<and> 2 \<le> time_g (GATES ! 0) + 5"
  by (simp add: GATES_def visibleGates_def)

text \<open>
  C8, amended. A gate of the list is visible exactly when now lies strictly inside the
  open interval from gate.time - 10 to gate.time + 5. The visible list is the filter of the
  gate list by that test, a function of now and the gate list alone, and filtering again
  at the same now changes nothing.
\<close>

theorem gate_visible_open_window:
  "(g \<in> set (visibleGates now gates)
      \<longleftrightarrow> g \<in> set gates \<and> time_g g - 10 < now \<and> now < time_g g + 5)
   \<and> visibleGates now gates
       = filter (\<lambda>g. time_g g - 10 < now \<and> now < time_g g + 5) gates
   \<and> visibleGates now (visibleGates now gates) = visibleGates now gates"
proof -
  have eq: "\<And>g. (time_g g - now < 10 \<and> time_g g - now > - 5)
                 = (time_g g - 10 < now \<and> now < time_g g + 5)"
    by auto
  show ?thesis
    by (simp add: visibleGates_def eq)
qed

section \<open>The judgement loop in closed form\<close>

lemma judge_note_fst:
  "fst (judge_note hands t i (evs, st))
     = evs @ events_of (activeNotes st ! i) (decide hands t (notesState st ! (activeNotes st ! i)))"
  by (simp add: judge_note_def decide_def Let_def handleHit_def hand_sample_def in_window_def
      hand_velocity_def split: option.splits)

lemma judge_note_notes:
  "notesState (snd (judge_note hands t i (evs, st)))
     = (notesState st)[activeNotes st ! i :=
          apply_decision t (decide hands t (notesState st ! (activeNotes st ! i)))
            (notesState st ! (activeNotes st ! i))]"
  by (simp add: judge_note_def decide_def Let_def handleHit_def hand_sample_def in_window_def
      hand_velocity_def split: option.splits)

lemma judge_note_active:
  "activeNotes (snd (judge_note hands t i (evs, st)))
     = (if decide hands t (notesState st ! (activeNotes st ! i)) = Keep then activeNotes st
        else splice1 i (activeNotes st))"
  by (simp add: judge_note_def decide_def Let_def handleHit_def hand_sample_def in_window_def
      hand_velocity_def split: option.splits)

lemma judge_note_next:
  "nextNoteIndex (snd (judge_note hands t i (evs, st))) = nextNoteIndex st"
  "currentTimeState (snd (judge_note hands t i (evs, st))) = currentTimeState st"
  by (simp_all add: judge_note_def Let_def handleHit_def split: option.splits)


lemma splice1_take: "i \<le> length xs \<Longrightarrow> take i (splice1 i xs) = take i xs"
  by (simp add: splice1_def)

lemma splice1_drop: "i \<le> length xs \<Longrightarrow> drop i (splice1 i xs) = drop (Suc i) xs"
  by (simp add: splice1_def)

lemma splice1_set: "set (splice1 i xs) \<subseteq> set xs"
  by (auto simp: splice1_def dest: in_set_takeD in_set_dropD)

lemma splice1_distinct: "distinct xs \<Longrightarrow> distinct (splice1 i xs)"
  using set_take_disj_set_drop_if_distinct [of xs i "Suc i"]
  by (simp add: splice1_def)

lemma take_nth_distinct:
  assumes "distinct xs" "i < length xs" "r \<in> set (take i xs)"
  shows "r \<noteq> xs ! i"
proof
  assume e: "r = xs ! i"
  from assms(3) obtain j where j: "j < i" "j < length xs" "xs ! j = r"
    by (auto simp: in_set_conv_nth)
  with assms(1,2) e show False
    by (auto simp: distinct_conv_nth)
qed

lemma judge_loop_char:
  assumes "k \<le> length (activeNotes st)" "distinct (activeNotes st)"
    and "\<forall>r\<in>set (activeNotes st). r < length (notesState st)"
  shows "fst (judge_loop hands t k (evs, st))
           = evs @ judged_events hands t (notesState st) (take k (activeNotes st))
       \<and> activeNotes (snd (judge_loop hands t k (evs, st)))
           = kept hands t (notesState st) (take k (activeNotes st)) @ drop k (activeNotes st)
       \<and> length (notesState (snd (judge_loop hands t k (evs, st)))) = length (notesState st)
       \<and> (\<forall>j. notesState (snd (judge_loop hands t k (evs, st))) ! j
                = judged_note hands t (notesState st) (take k (activeNotes st)) j)
       \<and> nextNoteIndex (snd (judge_loop hands t k (evs, st))) = nextNoteIndex st
       \<and> currentTimeState (snd (judge_loop hands t k (evs, st))) = currentTimeState st"
  using assms
proof (induction k arbitrary: evs st)
  case 0
  then show ?case by (simp add: judged_events_def kept_def judged_note_def)
next
  case (Suc i)
  define ref where "ref = activeNotes st ! i"
  define d where "d = decide hands t (notesState st ! ref)"
  define evs1 where "evs1 = fst (judge_note hands t i (evs, st))"
  define st1 where "st1 = snd (judge_note hands t i (evs, st))"
  have i: "i < length (activeNotes st)" using Suc.prems(1) by simp
  have ref_in: "ref \<in> set (activeNotes st)" using i by (simp add: ref_def)
  have ref_lt: "ref < length (notesState st)" using Suc.prems(3) ref_in by blast
  have jn: "judge_note hands t i (evs, st) = (evs1, st1)" by (simp add: evs1_def st1_def)
  have e1: "evs1 = evs @ events_of ref d"
    by (simp add: evs1_def judge_note_fst ref_def d_def)
  have n1: "notesState st1 = (notesState st)[ref := apply_decision t d (notesState st ! ref)]"
    by (simp add: st1_def judge_note_notes ref_def d_def)
  have a1: "activeNotes st1 = (if d = Keep then activeNotes st else splice1 i (activeNotes st))"
    by (simp add: st1_def judge_note_active ref_def d_def)
  have x1: "nextNoteIndex st1 = nextNoteIndex st" "currentTimeState st1 = currentTimeState st"
    by (simp_all add: st1_def judge_note_next)
  have tk: "take i (activeNotes st1) = take i (activeNotes st)"
    using i by (simp add: a1 splice1_take)
  have dr: "drop i (activeNotes st1)
              = (if d = Keep then ref # drop (Suc i) (activeNotes st)
                 else drop (Suc i) (activeNotes st))"
    using i by (simp add: a1 splice1_drop ref_def Cons_nth_drop_Suc)
  have len1: "i \<le> length (activeNotes st1)"
    using i by (auto simp: a1 splice1_def)
  have dist1: "distinct (activeNotes st1)"
    using Suc.prems(2) by (simp add: a1 splice1_distinct)
  have sub1: "set (activeNotes st1) \<subseteq> set (activeNotes st)"
    using splice1_set [of i "activeNotes st"] by (auto simp: a1)
  have lt1: "\<forall>r\<in>set (activeNotes st1). r < length (notesState st1)"
    using Suc.prems(3) sub1 by (auto simp: n1)
  have same: "\<And>r. r \<in> set (take i (activeNotes st)) \<Longrightarrow> notesState st1 ! r = notesState st ! r"
  proof -
    fix r assume "r \<in> set (take i (activeNotes st))"
    then have "r \<noteq> ref"
      using take_nth_distinct [OF Suc.prems(2) i] by (simp add: ref_def)
    then show "notesState st1 ! r = notesState st ! r" by (simp add: n1)
  qed
  have ref_notin: "ref \<notin> set (take i (activeNotes st))"
    using take_nth_distinct [OF Suc.prems(2) i, of ref] by (auto simp: ref_def)
  have tkS: "take (Suc i) (activeNotes st) = take i (activeNotes st) @ [ref]"
    using i by (simp add: take_Suc_conv_app_nth ref_def)
  note IH = Suc.IH [OF len1 dist1 lt1, of evs1, unfolded tk]
  have ev_eq: "judged_events hands t (notesState st1) (take i (activeNotes st))
                 = judged_events hands t (notesState st) (take i (activeNotes st))"
    unfolding judged_events_def using same by (auto intro!: arg_cong [where f = concat])
  have kp_eq: "kept hands t (notesState st1) (take i (activeNotes st))
                 = kept hands t (notesState st) (take i (activeNotes st))"
    unfolding kept_def using same by (auto intro!: filter_cong)
  have loop: "judge_loop hands t (Suc i) (evs, st) = judge_loop hands t i (evs1, st1)"
    by (simp add: jn)
  have c1: "fst (judge_loop hands t (Suc i) (evs, st))
              = evs @ judged_events hands t (notesState st) (take (Suc i) (activeNotes st))"
    unfolding loop using IH ev_eq by (simp add: e1 tkS judged_events_def d_def)
  have c2: "activeNotes (snd (judge_loop hands t (Suc i) (evs, st)))
              = kept hands t (notesState st) (take (Suc i) (activeNotes st))
                @ drop (Suc i) (activeNotes st)"
    unfolding loop using IH kp_eq by (simp add: tkS kept_def dr d_def)
  have c3: "length (notesState (snd (judge_loop hands t (Suc i) (evs, st))))
              = length (notesState st)"
    unfolding loop using IH by (simp add: n1)
  have c4: "\<forall>j. notesState (snd (judge_loop hands t (Suc i) (evs, st))) ! j
              = judged_note hands t (notesState st) (take (Suc i) (activeNotes st)) j"
  proof
    fix j
    have "notesState (snd (judge_loop hands t i (evs1, st1))) ! j
            = judged_note hands t (notesState st1) (take i (activeNotes st)) j"
      using IH by blast
    also have "\<dots> = judged_note hands t (notesState st) (take (Suc i) (activeNotes st)) j"
    proof (cases "j \<in> set (take i (activeNotes st))")
      case True
      then show ?thesis using same [OF True] by (simp add: judged_note_def tkS)
    next
      case False
      show ?thesis
      proof (cases "j = ref")
        case True
        then show ?thesis using ref_notin ref_lt by (simp add: judged_note_def tkS n1 d_def)
      next
        case neq: False
        then show ?thesis using False by (simp add: judged_note_def tkS n1)
      qed
    qed
    finally show "notesState (snd (judge_loop hands t (Suc i) (evs, st))) ! j
              = judged_note hands t (notesState st) (take (Suc i) (activeNotes st)) j"
      unfolding loop .
  qed
  have c5: "nextNoteIndex (snd (judge_loop hands t (Suc i) (evs, st))) = nextNoteIndex st"
    "currentTimeState (snd (judge_loop hands t (Suc i) (evs, st))) = currentTimeState st"
    unfolding loop using IH by (simp_all add: x1)
  show ?case using c1 c2 c3 c4 c5 by blast
qed

section \<open>The spawn loop and the frame in closed form\<close>

lemma spec_lookahead_eq: "spec_lookahead = spawnAheadTime"
  by (simp add: spec_lookahead_def spawnAheadTime_def dist_real_def)

lemma spawned_ge: "nextNoteIndex st \<le> spawned t st"
  by (simp add: spawned_def)

lemma spawned_le:
  "nextNoteIndex st \<le> length (notesState st) \<Longrightarrow> spawned t st \<le> length (notesState st)"
proof -
  assume a: "nextNoteIndex st \<le> length (notesState st)"
  have "length (takeWhile (\<lambda>n. time n - spawnAheadTime \<le> t)
                 (drop (nextNoteIndex st) (notesState st)))
          \<le> length (drop (nextNoteIndex st) (notesState st))"
    by (rule length_takeWhile_le)
  with a show ?thesis by (simp add: spawned_def)
qed

lemma spawn_loop_eq:
  "spawn_loop t st
     = st\<lparr>activeNotes := activeNotes st @ [nextNoteIndex st..<spawned t st],
          nextNoteIndex := spawned t st\<rparr>"
proof (induction t st rule: spawn_loop.induct)
  case (1 t st)
  show ?case
  proof (cases "nextNoteIndex st < length (notesState st)
                \<and> time (notesState st ! nextNoteIndex st) - spawnAheadTime \<le> t")
    case True
    define st2 where
      "st2 = st\<lparr>activeNotes := activeNotes st @ [nextNoteIndex st],
                nextNoteIndex := Suc (nextNoteIndex st)\<rparr>"
    have dr: "drop (nextNoteIndex st) (notesState st)
                = notesState st ! nextNoteIndex st # drop (Suc (nextNoteIndex st)) (notesState st)"
      using True by (simp add: Cons_nth_drop_Suc)
    have sp: "spawned t st2 = spawned t st"
      using True by (simp add: spawned_def st2_def dr)
    have lt: "nextNoteIndex st < spawned t st"
      using True by (simp add: spawned_def dr)
    have "spawn_loop t st = spawn_loop t st2"
      using True by (subst spawn_loop.simps) (simp add: st2_def)
    also have "\<dots> = st2\<lparr>activeNotes := activeNotes st2 @ [nextNoteIndex st2..<spawned t st2],
                          nextNoteIndex := spawned t st2\<rparr>"
      using "1.IH" True by (simp add: st2_def)
    also have "\<dots> = st\<lparr>activeNotes := activeNotes st @ [nextNoteIndex st..<spawned t st],
                          nextNoteIndex := spawned t st\<rparr>"
      using lt sp unfolding st2_def by (simp add: upt_conv_Cons)
    finally show ?thesis .
  next
    case False
    have sp: "spawned t st = nextNoteIndex st"
    proof (cases "nextNoteIndex st < length (notesState st)")
      case True
      then have dr: "drop (nextNoteIndex st) (notesState st)
                = notesState st ! nextNoteIndex st # drop (Suc (nextNoteIndex st)) (notesState st)"
        by (simp add: Cons_nth_drop_Suc)
      show ?thesis using False True by (simp add: spawned_def dr)
    next
      case False
      then show ?thesis by (simp add: spawned_def)
    qed
    have "spawn_loop t st = st"
      using False by (subst spawn_loop.simps) auto
    then show ?thesis by (simp add: sp)
  qed
qed

lemma spawned_due:
  assumes "nextNoteIndex st \<le> i" "i < spawned t st"
  shows "time (notesState st ! i) - spawnAheadTime \<le> t"
proof -
  let ?P = "\<lambda>n. time n - spawnAheadTime \<le> t"
  let ?xs = "drop (nextNoteIndex st) (notesState st)"
  have j: "i - nextNoteIndex st < length (takeWhile ?P ?xs)"
    using assms by (simp add: spawned_def)
  have "?P (takeWhile ?P ?xs ! (i - nextNoteIndex st))"
    using j by (meson nth_mem set_takeWhileD)
  moreover have "takeWhile ?P ?xs ! (i - nextNoteIndex st) = ?xs ! (i - nextNoteIndex st)"
    using j by (rule takeWhile_nth)
  moreover have "i < length (notesState st)"
    using j length_takeWhile_le [of ?P ?xs] assms(1) by simp
  ultimately show ?thesis using assms(1) by simp
qed

lemma spawned_stop:
  assumes "spawned t st < length (notesState st)"
  shows "\<not> time (notesState st ! spawned t st) - spawnAheadTime \<le> t"
proof -
  let ?P = "\<lambda>n. time n - spawnAheadTime \<le> t"
  let ?xs = "drop (nextNoteIndex st) (notesState st)"
  have l: "length (takeWhile ?P ?xs) < length ?xs"
    using assms by (simp add: spawned_def)
  have "\<not> ?P (?xs ! length (takeWhile ?P ?xs))"
    using l by (rule nth_length_takeWhile)
  then show ?thesis using assms by (simp add: spawned_def)
qed


lemma shake_step_fields:
  "notesState (shake_step f st) = notesState st"
  "activeNotes (shake_step f st) = activeNotes st"
  "nextNoteIndex (shake_step f st) = nextNoteIndex st"
  "currentTimeState (shake_step f st) = currentTimeState st"
  by (simp_all add: shake_step_def Let_def)

lemma useFrame_idle:
  assumes "\<not> judging f"
  shows "notesState (snd (useFrame f st)) = notesState st"
    and "activeNotes (snd (useFrame f st)) = activeNotes st"
    and "nextNoteIndex (snd (useFrame f st)) = nextNoteIndex st"
    and "fst (useFrame f st) = [] \<or> fst (useFrame f st) = [SongEnd]"
  using assms
  by (auto simp: useFrame_def judging_def Let_def shake_step_fields split: option.splits)

lemma active_after_spawn_sorted:
  assumes "scene_ok st"
  shows "sorted_wrt (<) (active_after_spawn t st)"
    and "\<forall>r\<in>set (active_after_spawn t st). r < spawned t st"
    and "spawned t st \<le> length (notesState st)"
proof -
  show "sorted_wrt (<) (active_after_spawn t st)"
    using assms by (auto simp: scene_ok_def active_after_spawn_def sorted_wrt_append)
  show "\<forall>r\<in>set (active_after_spawn t st). r < spawned t st"
    using assms spawned_ge [of st t] by (auto simp: scene_ok_def active_after_spawn_def)
  show "spawned t st \<le> length (notesState st)"
    using assms by (simp add: scene_ok_def spawned_le)
qed

lemma sorted_wrt_less_distinct: "sorted_wrt (<) (xs :: nat list) \<Longrightarrow> distinct xs"
  by (induction xs) auto

lemma useFrame_judging:
  assumes "judging f" "scene_ok st"
  shows "fst (useFrame f st)
           = judged_events (handPositionsRef f) (frame_time f) (notesState st)
               (active_after_spawn (frame_time f) st)"
    and "activeNotes (snd (useFrame f st))
           = kept (handPositionsRef f) (frame_time f) (notesState st)
               (active_after_spawn (frame_time f) st)"
    and "length (notesState (snd (useFrame f st))) = length (notesState st)"
    and "\<And>j. notesState (snd (useFrame f st)) ! j
           = judged_note (handPositionsRef f) (frame_time f) (notesState st)
               (active_after_spawn (frame_time f) st) j"
    and "nextNoteIndex (snd (useFrame f st)) = spawned (frame_time f) st"
    and "currentTimeState (snd (useFrame f st)) = frame_time f"
proof -
  from assms(1) obtain a where a: "audioRef f = Some a" "\<not> ended a" "gameStatus f = PLAYING"
    by (auto simp: judging_def split: option.splits)
  define t where "t = frame_time f"
  have t: "currentTime a = t" by (simp add: t_def frame_time_def a)
  define st1 where "st1 = (shake_step f st)\<lparr>currentTimeState := t\<rparr>"
  define st2 where "st2 = spawn_loop t st1"
  have sp1: "spawned t st1 = spawned t st"
    by (simp add: spawned_def st1_def shake_step_fields)
  have f2: "notesState st2 = notesState st"
    "activeNotes st2 = active_after_spawn t st"
    "nextNoteIndex st2 = spawned t st"
    "currentTimeState st2 = t"
    by (simp_all add: st2_def spawn_loop_eq sp1 active_after_spawn_def)
       (simp_all add: st1_def shake_step_fields)
  have uf: "useFrame f st
              = judge_loop (handPositionsRef f) t (length (activeNotes st2)) ([], st2)"
    by (simp add: useFrame_def a Let_def st2_def st1_def t)
  have d: "distinct (activeNotes st2)"
    using active_after_spawn_sorted(1) [OF assms(2), of t]
    by (simp add: f2 sorted_wrt_less_distinct)
  have lt: "\<forall>r\<in>set (activeNotes st2). r < length (notesState st2)"
    using active_after_spawn_sorted(2,3) [OF assms(2), of t] by (auto simp: f2)
  note ch = judge_loop_char [OF order_refl d lt, of "handPositionsRef f" t "[]"]
  show "fst (useFrame f st)
           = judged_events (handPositionsRef f) (frame_time f) (notesState st)
               (active_after_spawn (frame_time f) st)"
    using ch by (simp add: uf f2 t_def)
  show "activeNotes (snd (useFrame f st))
           = kept (handPositionsRef f) (frame_time f) (notesState st)
               (active_after_spawn (frame_time f) st)"
    using ch by (simp add: uf f2 t_def)
  show "length (notesState (snd (useFrame f st))) = length (notesState st)"
    using ch by (simp add: uf f2)
  show "\<And>j. notesState (snd (useFrame f st)) ! j
           = judged_note (handPositionsRef f) (frame_time f) (notesState st)
               (active_after_spawn (frame_time f) st) j"
    using ch by (simp add: uf f2 t_def)
  show "nextNoteIndex (snd (useFrame f st)) = spawned (frame_time f) st"
    using ch by (simp add: uf f2 t_def)
  show "currentTimeState (snd (useFrame f st)) = frame_time f"
    using ch by (simp add: uf f2 t_def)
qed

lemma useFrame_scene_ok:
  assumes "scene_ok st"
  shows "scene_ok (snd (useFrame f st))"
proof (cases "judging f")
  case True
  note u = useFrame_judging [OF True assms]
  note s = active_after_spawn_sorted [OF assms, of "frame_time f"]
  show ?thesis
    unfolding scene_ok_def
    using s by (auto simp: u kept_def sorted_wrt_filter)
next
  case False
  then show ?thesis using assms by (simp add: scene_ok_def useFrame_idle)
qed

section \<open>Hit detection\<close>

lemma events_for_concat:
  "events_for r (concat (map (\<lambda>q. events_of q (d q)) xs))
     = concat (map (\<lambda>q. if q = r then events_of q (d q) else []) xs)"
proof (induction xs)
  case Nil
  then show ?case by (simp add: events_for_def)
next
  case (Cons x xs)
  have "events_for r (events_of x (d x)) = (if x = r then events_of x (d x) else [])"
    by (cases "d x") (auto simp: events_for_def)
  with Cons show ?case by (simp add: events_for_def)
qed

lemma concat_single:
  "distinct xs \<Longrightarrow>
     concat (map (\<lambda>q. if q = r then g q else []) xs) = (if r \<in> set xs then g r else [])"
  by (induction xs) auto

lemma events_for_judged:
  assumes "distinct refs"
  shows "events_for r (judged_events hands t notes refs)
           = (if r \<in> set refs then events_of r (decide hands t (notes ! r)) else [])"
proof -
  have "distinct (rev refs)" using assms by simp
  from concat_single [OF this, of r "\<lambda>q. events_of q (decide hands t (notes ! q))"]
  show ?thesis by (simp add: judged_events_def events_for_concat)
qed

lemma in_window_not_expired: "in_window z \<Longrightarrow> \<not> z > MISS_Z"
  by (simp add: in_window_def MISS_Z_def PLAYER_Z_def)

lemma notePos_target:
  "lineIndex note < 4 \<Longrightarrow> lineLayer note < 3 \<Longrightarrow>
     notePos note (currentZ (time note) t) = Some (target_point note t)"
  by (simp add: notePos_def at_index_def target_point_def LANE_X_POSITIONS_def
      LAYER_Y_POSITIONS_def)

lemma goodCut_spec: "goodCut_of note (hand_velocity hands note) = spec_good hands note"
  by (auto simp: goodCut_of_def spec_good_def Let_def)

lemma decide_in_window:
  assumes "pending note" "in_window (currentZ (time note) t)"
    "lineIndex note < 4" "lineLayer note < 3"
  shows "decide hands t note
           = (if spec_hand_in_radius hands note t then HitNow (spec_good hands note) else Keep)"
  using assms in_window_not_expired [OF assms(2)]
  by (simp add: decide_def pending_def notePos_target within_radius_def goodCut_spec
      spec_hand_in_radius_def split: option.splits)

text \<open>
  C1. In a frame that judges, take a note that is in the active list when the judgement
  loop runs, is still pending, has its travel position inside the hit window, and has a
  lane and layer inside the tables. If its hand has a sample and that sample is closer than
  0.8 to the target point (lane x, layer y, travel z), the note is hit in this frame: it is
  flagged hit with the frame's time, leaves the active list, and exactly one callback is
  made for it, a hit whose quality is good exactly when the hand speed is at least 1.5 and,
  unless the direction is ANY, the normalized velocity has dot product at least 0.3 with
  the required direction. Otherwise (no sample, or distance at least 0.8) the note is left
  as it was, stays active, and no callback is made for it.
\<close>

theorem hit_in_window:
  assumes "scene_ok st" and "judging f"
    and "r \<in> set (active_after_spawn (frame_time f) st)"
    and "pending (notesState st ! r)"
    and "in_window (currentZ (time (notesState st ! r)) (frame_time f))"
    and "lineIndex (notesState st ! r) < 4" and "lineLayer (notesState st ! r) < 3"
  shows "(spec_hand_in_radius (handPositionsRef f) (notesState st ! r) (frame_time f) \<longrightarrow>
            notesState (snd (useFrame f st)) ! r
              = (notesState st ! r)\<lparr>hit := True, hitTime := Some (frame_time f)\<rparr>
            \<and> r \<notin> set (activeNotes (snd (useFrame f st)))
            \<and> events_for r (fst (useFrame f st))
                = [Hit r (spec_good (handPositionsRef f) (notesState st ! r))])
       \<and> (\<not> spec_hand_in_radius (handPositionsRef f) (notesState st ! r) (frame_time f) \<longrightarrow>
            notesState (snd (useFrame f st)) ! r = notesState st ! r
            \<and> r \<in> set (activeNotes (snd (useFrame f st)))
            \<and> events_for r (fst (useFrame f st)) = [])"
proof -
  note u = useFrame_judging [OF assms(2,1)]
  have d: "distinct (active_after_spawn (frame_time f) st)"
    using active_after_spawn_sorted(1) [OF assms(1)] by (rule sorted_wrt_less_distinct)
  note dec = decide_in_window [OF assms(4-7), of "handPositionsRef f"]
  show ?thesis
    using assms(3)
    by (simp add: u events_for_judged [OF d] judged_note_def kept_def dec)
qed


lemma sqrt_less_iff_sq: "0 \<le> c \<Longrightarrow> sqrt x < c \<longleftrightarrow> x < c * c"
proof -
  assume c: "0 \<le> c"
  have "sqrt x < c \<longleftrightarrow> sqrt x < sqrt (c * c)" using c by simp
  also have "\<dots> \<longleftrightarrow> x < c * c" by (rule real_sqrt_less_iff)
  finally show ?thesis .
qed

lemma sqrt_ge_iff_sq: "0 \<le> c \<Longrightarrow> c \<le> sqrt x \<longleftrightarrow> c * c \<le> x"
  using sqrt_less_iff_sq [of c x] by auto

lemma example_scene_ok: "scene_ok (initial_scene chart)"
  by (simp add: scene_ok_def initial_scene_def)

lemma example_judging: "judging (playing_frame t hands)"
  by (simp add: judging_def playing_frame_def)

lemma example_frame_time: "frame_time (playing_frame t hands) = t"
  "handPositionsRef (playing_frame t hands) = hands"
  by (simp_all add: frame_time_def playing_frame_def)

theorem hit_in_window_witness:
  "scene_ok (initial_scene [example_note])
   \<and> judging (playing_frame 5 example_hands)
   \<and> 0 \<in> set (active_after_spawn 5 (initial_scene [example_note]))
   \<and> pending example_note
   \<and> in_window (currentZ (time example_note) 5)
   \<and> spec_hand_in_radius example_hands example_note 5
   \<and> events_for 0 (fst (useFrame (playing_frame 5 example_hands) (initial_scene [example_note])))
       = [Hit 0 True]"
proof -
  let ?st = "initial_scene [example_note]"
  let ?f = "playing_frame 5 example_hands"
  have n: "notesState ?st ! 0 = example_note" by (simp add: initial_scene_def)
  have h1: "scene_ok ?st" by (rule example_scene_ok)
  have h2: "judging ?f" by (rule example_judging)
  have h3: "0 \<in> set (active_after_spawn (frame_time ?f) ?st)"
    by (simp add: example_frame_time active_after_spawn_def spawned_def initial_scene_def
        example_note_def spawnAheadTime_def SPAWN_Z_def PLAYER_Z_def NOTE_SPEED_def)
  have p4: "pending example_note" by (simp add: pending_def example_note_def)
  have p5: "in_window (currentZ (time example_note) 5)"
    by (simp add: in_window_def currentZ_def example_note_def PLAYER_Z_def NOTE_SPEED_def)
  have p6: "lineIndex example_note < 4" "lineLayer example_note < 3"
    by (simp_all add: example_note_def)
  have h4: "pending (notesState ?st ! 0)" unfolding n by (rule p4)
  have h5: "in_window (currentZ (time (notesState ?st ! 0)) (frame_time ?f))"
    unfolding n example_frame_time by (rule p5)
  have h6: "lineIndex (notesState ?st ! 0) < 4" unfolding n by (rule p6)
  have h7: "lineLayer (notesState ?st ! 0) < 3" unfolding n by (rule p6)
  have sq: "sqrt (1 / 100) = (1 / 10 :: real)"
    by (rule real_sqrt_unique) (simp_all add: power2_eq_square)
  have r: "spec_hand_in_radius example_hands example_note 5"
    by (simp add: sq spec_hand_in_radius_def hand_sample_def example_hands_def example_note_def
        target_point_def distanceTo_def distanceToSquared_def LANE_X_POSITIONS_def
        LAYER_Y_POSITIONS_def LANE_WIDTH_def currentZ_def PLAYER_Z_def NOTE_SPEED_def)
  have g: "spec_good example_hands example_note"
    by (simp add: spec_good_def hand_velocity_def example_hands_def example_note_def
        length_v_def sqrt_ge_iff_sq)
  from hit_in_window [OF h1 h2 h3 h4 h5 h6 h7] r g
  have "events_for 0 (fst (useFrame ?f ?st)) = [Hit 0 True]"
    by (simp add: n example_frame_time)
  with h1 h2 h3 p4 p5 r show ?thesis by (simp add: example_frame_time)
qed

section \<open>One note through a frame and through a run of frames\<close>

lemma useFrame_note:
  assumes "scene_ok st"
  shows "notesState (snd (useFrame f st)) ! j
           = apply_decision (frame_time f) (frame_decision f st j) (notesState st ! j)"
    and "events_for j (fst (useFrame f st)) = events_of j (frame_decision f st j)"
    and "j \<in> set (activeNotes (snd (useFrame f st)))
           \<longleftrightarrow> frame_decision f st j = Keep
               \<and> (j \<in> set (activeNotes st)
                  \<or> (judging f \<and> nextNoteIndex st \<le> j \<and> j < spawned (frame_time f) st))"
proof -
  have d: "distinct (active_after_spawn (frame_time f) st)"
    using active_after_spawn_sorted(1) [OF assms] by (rule sorted_wrt_less_distinct)
  show "notesState (snd (useFrame f st)) ! j
           = apply_decision (frame_time f) (frame_decision f st j) (notesState st ! j)"
  proof (cases "judging f")
    case True
    then show ?thesis
      by (simp add: useFrame_judging [OF True assms] judged_note_def frame_decision_def)
  next
    case False
    then show ?thesis by (simp add: useFrame_idle frame_decision_def)
  qed
  show "events_for j (fst (useFrame f st)) = events_of j (frame_decision f st j)"
  proof (cases "judging f")
    case True
    then show ?thesis
      by (simp add: useFrame_judging [OF True assms] events_for_judged [OF d]
          frame_decision_def)
  next
    case False
    then show ?thesis
      using useFrame_idle(4) [OF False, of st]
      by (auto simp: frame_decision_def events_for_def)
  qed
  show "j \<in> set (activeNotes (snd (useFrame f st)))
           \<longleftrightarrow> frame_decision f st j = Keep
               \<and> (j \<in> set (activeNotes st)
                  \<or> (judging f \<and> nextNoteIndex st \<le> j \<and> j < spawned (frame_time f) st))"
  proof (cases "judging f")
    case True
    then show ?thesis
      by (auto simp: useFrame_judging [OF True assms] kept_def frame_decision_def
          active_after_spawn_def)
  next
    case False
    then show ?thesis by (simp add: useFrame_idle frame_decision_def)
  qed
qed

lemma decide_resolved: "\<not> pending n \<Longrightarrow> decide hands t n = Keep"
  by (auto simp: decide_def pending_def)

lemma frame_decision_resolved: "\<not> pending (notesState st ! j) \<Longrightarrow> frame_decision f st j = Keep"
  by (simp add: frame_decision_def decide_resolved)

lemma run_frames_fst_Cons:
  "fst (run_frames (f # fs) st)
     = fst (useFrame f st) @ fst (run_frames fs (snd (useFrame f st)))"
  by (simp split: prod.splits)

lemma run_frames_snd_Cons:
  "snd (run_frames (f # fs) st) = snd (run_frames fs (snd (useFrame f st)))"
  by (simp split: prod.splits)

declare run_frames.simps(2) [simp del]

lemma run_frames_scene_ok: "scene_ok st \<Longrightarrow> scene_ok (snd (run_frames fs st))"
proof (induction fs arbitrary: st)
  case Nil
  then show ?case by simp
next
  case (Cons f fs)
  then show ?case by (simp add: run_frames_snd_Cons useFrame_scene_ok)
qed

lemma run_frames_fst_append:
  "fst (run_frames (fs @ gs) st)
     = fst (run_frames fs st) @ fst (run_frames gs (snd (run_frames fs st)))"
  by (induction fs arbitrary: st) (simp_all add: run_frames_fst_Cons run_frames_snd_Cons)

lemma run_frames_snd_append:
  "snd (run_frames (fs @ gs) st) = snd (run_frames gs (snd (run_frames fs st)))"
  by (induction fs arbitrary: st) (simp_all add: run_frames_snd_Cons)

lemma events_for_append: "events_for j (xs @ ys) = events_for j xs @ events_for j ys"
  by (simp add: events_for_def)

text \<open>What a run of frames can do to one note, and the callbacks it makes for it.\<close>

lemma run_frames_note:
  assumes "scene_ok st"
  shows "(\<not> pending (notesState st ! j) \<longrightarrow>
            notesState (snd (run_frames fs st)) ! j = notesState st ! j
            \<and> events_for j (fst (run_frames fs st)) = [])
       \<and> (pending (notesState st ! j) \<longrightarrow>
            (notesState (snd (run_frames fs st)) ! j = notesState st ! j
             \<and> events_for j (fst (run_frames fs st)) = [])
          \<or> (notesState (snd (run_frames fs st)) ! j = (notesState st ! j)\<lparr>missed := True\<rparr>
             \<and> events_for j (fst (run_frames fs st)) = [Miss j])
          \<or> (\<exists>T g. notesState (snd (run_frames fs st)) ! j
                       = (notesState st ! j)\<lparr>hit := True, hitTime := Some T\<rparr>
                   \<and> events_for j (fst (run_frames fs st)) = [Hit j g]))"
  using assms
proof (induction fs arbitrary: st)
  case Nil
  then show ?case by (simp add: events_for_def)
next
  case (Cons f fs)
  define st1 where "st1 = snd (useFrame f st)"
  define d where "d = frame_decision f st j"
  have ok1: "scene_ok st1" using Cons.prems by (simp add: st1_def useFrame_scene_ok)
  note IH = Cons.IH [OF ok1]
  have n1: "notesState st1 ! j = apply_decision (frame_time f) d (notesState st ! j)"
    by (simp add: st1_def d_def useFrame_note(1) [OF Cons.prems])
  have e1: "events_for j (fst (useFrame f st)) = events_of j d"
    by (simp add: d_def useFrame_note(2) [OF Cons.prems])
  have ev: "events_for j (fst (run_frames (f # fs) st))
              = events_of j d @ events_for j (fst (run_frames fs st1))"
    by (simp add: run_frames_fst_Cons events_for_append e1 st1_def)
  have sn: "snd (run_frames (f # fs) st) = snd (run_frames fs st1)"
    by (simp add: run_frames_snd_Cons st1_def)
  show ?case
  proof (cases "pending (notesState st ! j)")
    case False
    then have "d = Keep" by (simp add: d_def frame_decision_resolved)
    then show ?thesis using False IH by (simp add: ev sn n1)
  next
    case True
    show ?thesis
    proof (cases d)
      case Keep
      then show ?thesis using True IH by (simp add: ev sn n1)
    next
      case Expire
      then have "\<not> pending (notesState st1 ! j)" by (simp add: n1 pending_def)
      then show ?thesis using True IH Expire by (simp add: ev sn n1)
    next
      case (HitNow g)
      then have "\<not> pending (notesState st1 ! j)" by (simp add: n1 pending_def)
      then show ?thesis using True IH HitNow
        by (auto simp: ev sn n1)
    qed
  qed
qed


text \<open>
  C4. Over any run of frames, a note changes resolution state at most once: a pending note
  either stays exactly as it was with no callback, or becomes missed with exactly one miss
  callback, or becomes hit with exactly one hit callback; a resolved note is left exactly as
  it was and gets no callback. So a note is never both hit and missed, a set flag is never
  cleared, and at most one judgement event is emitted per note.
\<close>

theorem resolution_at_most_once:
  assumes "scene_ok st"
  shows "(pending (notesState st ! j) \<longrightarrow>
            (notesState (snd (run_frames fs st)) ! j = notesState st ! j
             \<and> events_for j (fst (run_frames fs st)) = [])
          \<or> (notesState (snd (run_frames fs st)) ! j = (notesState st ! j)\<lparr>missed := True\<rparr>
             \<and> events_for j (fst (run_frames fs st)) = [Miss j])
          \<or> (\<exists>T g. notesState (snd (run_frames fs st)) ! j
                       = (notesState st ! j)\<lparr>hit := True, hitTime := Some T\<rparr>
                   \<and> events_for j (fst (run_frames fs st)) = [Hit j g]))
       \<and> (\<not> pending (notesState st ! j) \<longrightarrow>
            notesState (snd (run_frames fs st)) ! j = notesState st ! j
            \<and> events_for j (fst (run_frames fs st)) = [])
       \<and> (\<not> (hit (notesState st ! j) \<and> missed (notesState st ! j)) \<longrightarrow>
            \<not> (hit (notesState (snd (run_frames fs st)) ! j)
               \<and> missed (notesState (snd (run_frames fs st)) ! j)))
       \<and> (hit (notesState st ! j) \<longrightarrow> hit (notesState (snd (run_frames fs st)) ! j))
       \<and> (missed (notesState st ! j) \<longrightarrow> missed (notesState (snd (run_frames fs st)) ! j))
       \<and> length (events_for j (fst (run_frames fs st))) \<le> 1"
proof -
  note r = run_frames_note [OF assms, of j fs]
  show ?thesis
  proof (cases "pending (notesState st ! j)")
    case True
    with r have
      "(notesState (snd (run_frames fs st)) ! j = notesState st ! j
             \<and> events_for j (fst (run_frames fs st)) = [])
          \<or> (notesState (snd (run_frames fs st)) ! j = (notesState st ! j)\<lparr>missed := True\<rparr>
             \<and> events_for j (fst (run_frames fs st)) = [Miss j])
          \<or> (\<exists>T g. notesState (snd (run_frames fs st)) ! j
                       = (notesState st ! j)\<lparr>hit := True, hitTime := Some T\<rparr>
                   \<and> events_for j (fst (run_frames fs st)) = [Hit j g])"
      by blast
    then show ?thesis using True by (auto simp: pending_def)
  next
    case False
    with r have "notesState (snd (run_frames fs st)) ! j = notesState st ! j
            \<and> events_for j (fst (run_frames fs st)) = []"
      by blast
    then show ?thesis using False by simp
  qed
qed

theorem resolution_at_most_once_witness:
  "scene_ok (initial_scene [example_note])
   \<and> pending (notesState (initial_scene [example_note]) ! 0)
   \<and> length (events_for 0 (fst (run_frames
        [playing_frame 5 example_hands, playing_frame 6 example_hands]
        (initial_scene [example_note])))) \<le> 1"
proof -
  have p: "pending (notesState (initial_scene [example_note]) ! 0)"
    by (simp add: initial_scene_def pending_def example_note_def)
  from resolution_at_most_once [OF example_scene_ok, of "[example_note]" 0
      "[playing_frame 5 example_hands, playing_frame 6 example_hands]"]
  have "length (events_for 0 (fst (run_frames
        [playing_frame 5 example_hands, playing_frame 6 example_hands]
        (initial_scene [example_note])))) \<le> 1"
    by blast
  with example_scene_ok p show ?thesis by blast
qed

section \<open>Expiry\<close>

lemma useFrame_next_mono:
  "nextNoteIndex st \<le> nextNoteIndex (snd (useFrame f st))"
proof (cases "judging f")
  case True
  then obtain a where a: "audioRef f = Some a" "\<not> ended a" "gameStatus f = PLAYING"
    by (auto simp: judging_def split: option.splits)
  have "\<And>k r. nextNoteIndex (snd (judge_loop (handPositionsRef f) (currentTime a) k r))
                = nextNoteIndex (snd r)"
  proof -
    fix k r
    show "nextNoteIndex (snd (judge_loop (handPositionsRef f) (currentTime a) k r))
                = nextNoteIndex (snd r)"
    proof (induction k arbitrary: r)
      case 0
      then show ?case by simp
    next
      case (Suc i)
      obtain evs st' where r: "r = (evs, st')" by (cases r)
      show ?case by (simp add: Suc r judge_note_next)
    qed
  qed
  then show ?thesis
    using spawned_ge [of "(shake_step f st)\<lparr>currentTimeState := currentTime a\<rparr>" "currentTime a"]
    by (simp add: useFrame_def a Let_def spawn_loop_eq shake_step_fields)
next
  case False
  then show ?thesis by (simp add: useFrame_idle)
qed

lemma run_frames_next_mono:
  "nextNoteIndex st \<le> nextNoteIndex (snd (run_frames fs st))"
proof (induction fs arbitrary: st)
  case Nil
  then show ?case by simp
next
  case (Cons f fs)
  have "nextNoteIndex st \<le> nextNoteIndex (snd (useFrame f st))" by (rule useFrame_next_mono)
  also have "\<dots> \<le> nextNoteIndex (snd (run_frames fs (snd (useFrame f st))))" by (rule Cons.IH)
  finally show ?case by (simp add: run_frames_snd_Cons)
qed

lemma useFrame_not_reactivated:
  assumes "scene_ok st" "r < nextNoteIndex st" "r \<notin> set (activeNotes st)"
  shows "r \<notin> set (activeNotes (snd (useFrame f st)))"
  using assms by (simp add: useFrame_note(3) [OF assms(1)])

lemma run_frames_not_reactivated:
  assumes "scene_ok st" "r < nextNoteIndex st" "r \<notin> set (activeNotes st)"
  shows "r \<notin> set (activeNotes (snd (run_frames fs st)))"
  using assms
proof (induction fs arbitrary: st)
  case Nil
  then show ?case by simp
next
  case (Cons f fs)
  have "scene_ok (snd (useFrame f st))" using Cons.prems(1) by (rule useFrame_scene_ok)
  moreover have "r < nextNoteIndex (snd (useFrame f st))"
    using Cons.prems(2) useFrame_next_mono [of st f] by simp
  moreover have "r \<notin> set (activeNotes (snd (useFrame f st)))"
    using Cons.prems by (rule useFrame_not_reactivated)
  ultimately show ?case using Cons.IH by (simp add: run_frames_snd_Cons)
qed

lemma decide_expired:
  "pending n \<Longrightarrow> currentZ (time n) t > MISS_Z \<Longrightarrow> decide hands t n = Expire"
  by (simp add: decide_def pending_def)

lemma notePos_Some_target: "notePos n (currentZ (time n) t) = Some q \<Longrightarrow> q = target_point n t"
  by (auto simp: notePos_def at_index_def target_point_def split: option.splits if_splits)

lemma decide_HitNow_D:
  assumes "decide hands t n = HitNow g"
  shows "pending n \<and> in_window (currentZ (time n) t) \<and> spec_hand_in_radius hands n t"
proof -
  from assms have p: "pending n" and w: "in_window (currentZ (time n) t)"
    by (auto simp: decide_def pending_def split: if_splits)
  from assms obtain hp where hp: "hand_sample hands n = Some hp"
      "within_radius hp (notePos n (currentZ (time n) t))"
    by (auto simp: decide_def split: if_splits option.splits)
  from hp(2) obtain q where q: "notePos n (currentZ (time n) t) = Some q" "distanceTo hp q < 0.8"
    by (auto simp: within_radius_def split: option.splits)
  from notePos_Some_target [OF q(1)] q(2) hp(1) have "spec_hand_in_radius hands n t"
    by (simp add: spec_hand_in_radius_def)
  with p w show ?thesis by simp
qed

lemma expire_frame:
  assumes "scene_ok st" "judging f" "pending (notesState st ! r)"
    and "currentZ (time (notesState st ! r)) (frame_time f) > MISS_Z"
    and "r \<in> set (active_after_spawn (frame_time f) st)"
  shows "notesState (snd (useFrame f st)) ! r = (notesState st ! r)\<lparr>missed := True\<rparr>"
    and "r \<notin> set (activeNotes (snd (useFrame f st)))"
    and "events_for r (fst (useFrame f st)) = [Miss r]"
proof -
  have d: "frame_decision f st r = Expire"
    using assms by (simp add: frame_decision_def decide_expired)
  show "notesState (snd (useFrame f st)) ! r = (notesState st ! r)\<lparr>missed := True\<rparr>"
    by (simp add: useFrame_note(1) [OF assms(1)] d)
  show "r \<notin> set (activeNotes (snd (useFrame f st)))"
    by (simp add: useFrame_note(3) [OF assms(1)] d)
  show "events_for r (fst (useFrame f st)) = [Miss r]"
    by (simp add: useFrame_note(2) [OF assms(1)] d)
qed

lemma never_hit_run:
  assumes "scene_ok st" "pending (notesState st ! r)" "r \<in> set (activeNotes st)"
    and "\<forall>g\<in>set fs. \<not> can_hit g (notesState st ! r)"
  shows "(notesState (snd (run_frames fs st)) ! r = notesState st ! r
          \<and> r \<in> set (activeNotes (snd (run_frames fs st)))
          \<and> events_for r (fst (run_frames fs st)) = [])
       \<or> (notesState (snd (run_frames fs st)) ! r = (notesState st ! r)\<lparr>missed := True\<rparr>
          \<and> r \<notin> set (activeNotes (snd (run_frames fs st)))
          \<and> r < nextNoteIndex (snd (run_frames fs st))
          \<and> events_for r (fst (run_frames fs st)) = [Miss r])"
  using assms
proof (induction fs arbitrary: st)
  case Nil
  then show ?case by (simp add: events_for_def)
next
  case (Cons g gs)
  define st1 where "st1 = snd (useFrame g st)"
  define d where "d = frame_decision g st r"
  have ok1: "scene_ok st1" using Cons.prems(1) by (simp add: st1_def useFrame_scene_ok)
  have rn: "r < nextNoteIndex st" using Cons.prems(1,3) by (auto simp: scene_ok_def)
  have rn1: "r < nextNoteIndex st1"
    using rn useFrame_next_mono [of st g] by (simp add: st1_def)
  have n1: "notesState st1 ! r = apply_decision (frame_time g) d (notesState st ! r)"
    by (simp add: st1_def d_def useFrame_note(1) [OF Cons.prems(1)])
  have e1: "events_for r (fst (useFrame g st)) = events_of r d"
    by (simp add: d_def useFrame_note(2) [OF Cons.prems(1)])
  have a1: "r \<in> set (activeNotes st1) \<longleftrightarrow> d = Keep"
    using Cons.prems(3) by (simp add: st1_def d_def useFrame_note(3) [OF Cons.prems(1)])
  have ev: "events_for r (fst (run_frames (g # gs) st))
              = events_of r d @ events_for r (fst (run_frames gs st1))"
    by (simp add: run_frames_fst_Cons events_for_append e1 st1_def)
  have sn: "snd (run_frames (g # gs) st) = snd (run_frames gs st1)"
    by (simp add: run_frames_snd_Cons st1_def)
  have nohit: "\<And>q. d \<noteq> HitNow q"
  proof
    fix q assume "d = HitNow q"
    then have j: "judging g"
      and "decide (handPositionsRef g) (frame_time g) (notesState st ! r) = HitNow q"
      by (auto simp: d_def frame_decision_def split: if_splits)
    from decide_HitNow_D [OF this(2)] j have "can_hit g (notesState st ! r)"
      by (simp add: can_hit_def)
    with Cons.prems(4) show False by simp
  qed
  show ?case
  proof (cases d)
    case Keep
    have "\<forall>g\<in>set gs. \<not> can_hit g (notesState st1 ! r)"
      using Cons.prems(4) by (simp add: n1 Keep)
    from Cons.IH [OF ok1 _ _ this] Cons.prems(2) a1 Keep
    show ?thesis by (simp add: ev sn n1)
  next
    case Expire
    have np: "\<not> pending (notesState st1 ! r)" by (simp add: n1 Expire pending_def)
    have "notesState (snd (run_frames gs st1)) ! r = notesState st1 ! r
          \<and> events_for r (fst (run_frames gs st1)) = []"
      using run_frames_note [OF ok1, of r gs] np by blast
    moreover have "r \<notin> set (activeNotes (snd (run_frames gs st1)))"
      using a1 Expire by (intro run_frames_not_reactivated [OF ok1 rn1]) simp
    moreover have "r < nextNoteIndex (snd (run_frames gs st1))"
      using rn1 run_frames_next_mono [of st1 gs] by simp
    ultimately show ?thesis by (simp add: ev sn n1 Expire)
  next
    case (HitNow q)
    with nohit show ?thesis by blast
  qed
qed


lemma run_frames_single:
  "fst (run_frames [f] st) = fst (useFrame f st)"
  "snd (run_frames [f] st) = snd (useFrame f st)"
  by (simp_all add: run_frames_fst_Cons run_frames_snd_Cons)

text \<open>
  C2. In a frame that judges, a pending note whose travel position is past \<open>MISS_Z\<close> and
  that is in the active list when the loop runs is marked missed, leaves the active list and
  gets exactly one callback, a miss, whatever the hand samples are: the expiry test comes
  before the hit test. Consequently, if a pending active note is never hit in the frames
  \<open>fs\<close> (no frame in which it is in the window with its hand within the radius), then after
  the later frame \<open>f\<close> that sees it past the threshold it is missed, no longer active, and
  the whole run has made exactly one callback for it, a miss.
\<close>

theorem expiry_before_hit:
  assumes "scene_ok st" and "judging f" and "pending (notesState st ! r)"
    and "currentZ (time (notesState st ! r)) (frame_time f) > MISS_Z"
  shows "(r \<in> set (active_after_spawn (frame_time f) st) \<longrightarrow>
            notesState (snd (useFrame f st)) ! r = (notesState st ! r)\<lparr>missed := True\<rparr>
            \<and> r \<notin> set (activeNotes (snd (useFrame f st)))
            \<and> events_for r (fst (useFrame f st)) = [Miss r])
       \<and> (r \<in> set (activeNotes st) \<and> (\<forall>g\<in>set fs. \<not> can_hit g (notesState st ! r)) \<longrightarrow>
            notesState (snd (run_frames (fs @ [f]) st)) ! r
              = (notesState st ! r)\<lparr>missed := True\<rparr>
            \<and> r \<notin> set (activeNotes (snd (run_frames (fs @ [f]) st)))
            \<and> events_for r (fst (run_frames (fs @ [f]) st)) = [Miss r])"
proof (rule conjI; rule impI)
  assume a: "r \<in> set (active_after_spawn (frame_time f) st)"
  show "notesState (snd (useFrame f st)) ! r = (notesState st ! r)\<lparr>missed := True\<rparr>
            \<and> r \<notin> set (activeNotes (snd (useFrame f st)))
            \<and> events_for r (fst (useFrame f st)) = [Miss r]"
    using expire_frame [OF assms a] by simp
next
  assume b: "r \<in> set (activeNotes st) \<and> (\<forall>g\<in>set fs. \<not> can_hit g (notesState st ! r))"
  define st' where "st' = snd (run_frames fs st)"
  have ok': "scene_ok st'" using assms(1) by (simp add: st'_def run_frames_scene_ok)
  have ev: "events_for r (fst (run_frames (fs @ [f]) st))
              = events_for r (fst (run_frames fs st)) @ events_for r (fst (useFrame f st'))"
    by (simp add: run_frames_fst_append run_frames_single events_for_append st'_def)
  have sn: "snd (run_frames (fs @ [f]) st) = snd (useFrame f st')"
    by (simp add: run_frames_snd_append run_frames_single st'_def)
  from never_hit_run [OF assms(1,3), of fs] b
  consider
    (still) "notesState st' ! r = notesState st ! r" "r \<in> set (activeNotes st')"
      "events_for r (fst (run_frames fs st)) = []"
  | (gone) "notesState st' ! r = (notesState st ! r)\<lparr>missed := True\<rparr>"
      "r \<notin> set (activeNotes st')" "r < nextNoteIndex st'"
      "events_for r (fst (run_frames fs st)) = [Miss r]"
    unfolding st'_def by blast
  then show "notesState (snd (run_frames (fs @ [f]) st)) ! r
              = (notesState st ! r)\<lparr>missed := True\<rparr>
            \<and> r \<notin> set (activeNotes (snd (run_frames (fs @ [f]) st)))
            \<and> events_for r (fst (run_frames (fs @ [f]) st)) = [Miss r]"
  proof cases
    case still
    have p: "pending (notesState st' ! r)" using assms(3) by (simp add: still(1))
    have z: "currentZ (time (notesState st' ! r)) (frame_time f) > MISS_Z"
      using assms(4) by (simp add: still(1))
    have a: "r \<in> set (active_after_spawn (frame_time f) st')"
      using still(2) by (simp add: active_after_spawn_def)
    from expire_frame [OF ok' assms(2) p z a] show ?thesis
      by (simp add: ev sn still)
  next
    case gone
    have np: "\<not> pending (notesState st' ! r)" by (simp add: gone(1) pending_def)
    have d: "frame_decision f st' r = Keep" using np by (rule frame_decision_resolved)
    have "r \<notin> set (activeNotes (snd (useFrame f st')))"
      using ok' gone(3,2) by (rule useFrame_not_reactivated)
    then show ?thesis
      by (simp add: ev sn gone useFrame_note(1,2) [OF ok'] d)
  qed
qed

theorem expiry_before_hit_witness:
  "scene_ok example_active_scene
   \<and> judging (playing_frame 5.5 example_hands)
   \<and> pending (notesState example_active_scene ! 0)
   \<and> currentZ (time (notesState example_active_scene ! 0)) 5.5 > MISS_Z
   \<and> 0 \<in> set (active_after_spawn 5.5 example_active_scene)
   \<and> 0 \<in> set (activeNotes example_active_scene)
   \<and> \<not> can_hit (playing_frame 5 absent_hands) (notesState example_active_scene ! 0)
   \<and> events_for 0 (fst (useFrame (playing_frame 5.5 example_hands) example_active_scene))
       = [Miss 0]
   \<and> events_for 0 (fst (run_frames
        ([playing_frame 5 absent_hands] @ [playing_frame 5.5 example_hands])
        example_active_scene)) = [Miss 0]"
proof -
  let ?st = "example_active_scene"
  let ?f = "playing_frame 5.5 example_hands"
  have n: "notesState ?st ! 0 = example_note" by (simp add: example_active_scene_def)
  have h1: "scene_ok ?st" by (simp add: scene_ok_def example_active_scene_def)
  have h2: "judging ?f" by (rule example_judging)
  have h3: "pending (notesState ?st ! 0)" by (simp add: n) (simp add: pending_def example_note_def)
  have z: "currentZ (time example_note) 5.5 > MISS_Z"
    by (simp add: currentZ_def example_note_def PLAYER_Z_def NOTE_SPEED_def MISS_Z_def)
  have h4: "currentZ (time (notesState ?st ! 0)) (frame_time ?f) > MISS_Z"
    unfolding n example_frame_time by (rule z)
  have a: "0 \<in> set (active_after_spawn (frame_time ?f) ?st)"
    by (simp add: active_after_spawn_def example_active_scene_def)
  have b: "0 \<in> set (activeNotes ?st)" by (simp add: example_active_scene_def)
  have c: "\<forall>g\<in>set [playing_frame 5 absent_hands]. \<not> can_hit g (notesState ?st ! 0)"
    by (simp add: can_hit_def example_frame_time spec_hand_in_radius_def hand_sample_def
        absent_hands_def)
  from expiry_before_hit [OF h1 h2 h3 h4, of "[playing_frame 5 absent_hands]"] a b c
  have "events_for 0 (fst (useFrame ?f ?st)) = [Miss 0]
        \<and> events_for 0 (fst (run_frames ([playing_frame 5 absent_hands] @ [?f]) ?st)) = [Miss 0]"
    by blast
  with h1 h2 h3 h4 a b c show ?thesis by (simp add: example_frame_time)
qed

section \<open>The spawn scheduler\<close>

lemma apply_decision_time: "time (apply_decision t d n) = time n"
  by (cases d) simp_all

lemma useFrame_length:
  "scene_ok st \<Longrightarrow> length (notesState (snd (useFrame f st))) = length (notesState st)"
  by (cases "judging f") (simp_all add: useFrame_judging useFrame_idle)

lemma useFrame_times:
  assumes "scene_ok st"
  shows "map time (notesState (snd (useFrame f st))) = map time (notesState st)"
proof (rule nth_equalityI)
  show "length (map time (notesState (snd (useFrame f st)))) = length (map time (notesState st))"
    using assms by (simp add: useFrame_length)
next
  fix i assume "i < length (map time (notesState (snd (useFrame f st))))"
  then have i: "i < length (notesState st)" using assms by (simp add: useFrame_length)
  then show "map time (notesState (snd (useFrame f st))) ! i = map time (notesState st) ! i"
    using assms by (simp add: useFrame_length useFrame_note(1) apply_decision_time)
qed

lemma useFrame_next:
  assumes "scene_ok st"
  shows "nextNoteIndex (snd (useFrame f st))
           = (if judging f then spawned (frame_time f) st else nextNoteIndex st)"
  using assms by (simp add: useFrame_judging useFrame_idle)

lemma frame_times_snoc:
  "frame_times (fs @ [f]) = (if judging f then frame_times fs @ [frame_time f] else frame_times fs)"
  by (simp add: frame_times_def)

lemma run_from_initial:
  assumes "sorted (frame_times fs)"
  shows "scene_ok (snd (run_frames fs (initial_scene chart)))
       \<and> map time (notesState (snd (run_frames fs (initial_scene chart)))) = map time chart
       \<and> (\<forall>i<nextNoteIndex (snd (run_frames fs (initial_scene chart))).
             \<exists>t\<in>set (frame_times fs). time (chart ! i) - spawnAheadTime \<le> t)"
  using assms
proof (induction fs rule: rev_induct)
  case Nil
  then show ?case by (simp add: example_scene_ok) (simp add: initial_scene_def)
next
  case (snoc f fs)
  define st where "st = snd (run_frames fs (initial_scene chart))"
  have srt: "sorted (frame_times fs)"
    using snoc.prems by (auto simp: frame_times_snoc sorted_append split: if_splits)
  note IH = snoc.IH [OF srt, folded st_def]
  have ok: "scene_ok st" using IH by simp
  have tm: "map time (notesState st) = map time chart" using IH by simp
  have sn: "snd (run_frames (fs @ [f]) (initial_scene chart)) = snd (useFrame f st)"
    by (simp add: run_frames_snd_append run_frames_single st_def)
  have len: "length (notesState st) = length chart"
    using tm by (metis length_map)
  have nth_time: "\<And>i. i < length chart \<Longrightarrow> time (notesState st ! i) = time (chart ! i)"
  proof -
    fix i assume i: "i < length chart"
    have "map time (notesState st) ! i = map time chart ! i" by (simp add: tm)
    then show "time (notesState st ! i) = time (chart ! i)" using i len by simp
  qed
  have c1: "scene_ok (snd (useFrame f st))" using ok by (rule useFrame_scene_ok)
  have c2: "map time (notesState (snd (useFrame f st))) = map time chart"
    using ok tm by (simp add: useFrame_times)
  have c3: "\<forall>i<nextNoteIndex (snd (useFrame f st)).
              \<exists>t\<in>set (frame_times (fs @ [f])). time (chart ! i) - spawnAheadTime \<le> t"
  proof (intro allI impI)
    fix i assume i: "i < nextNoteIndex (snd (useFrame f st))"
    show "\<exists>t\<in>set (frame_times (fs @ [f])). time (chart ! i) - spawnAheadTime \<le> t"
    proof (cases "i < nextNoteIndex st")
      case True
      with IH obtain t where "t \<in> set (frame_times fs)" "time (chart ! i) - spawnAheadTime \<le> t"
        by blast
      then show ?thesis by (auto simp: frame_times_snoc)
    next
      case False
      then have j: "judging f" and i2: "i < spawned (frame_time f) st"
        using i by (auto simp: useFrame_next [OF ok] split: if_splits)
      have "spawned (frame_time f) st \<le> length (notesState st)"
        using ok by (simp add: scene_ok_def spawned_le)
      then have il: "i < length chart" using i2 len by simp
      have "time (notesState st ! i) - spawnAheadTime \<le> frame_time f"
        using False i2 by (intro spawned_due) simp_all
      then show ?thesis using j il by (auto simp: frame_times_snoc nth_time)
    qed
  qed
  show ?case using c1 c2 c3 by (simp add: sn)
qed


text \<open>
  The first session: while the clock readings have not decreased since the initial scene,
  the notes behind the cursor after a frame are exactly the due ones.
\<close>

lemma spawn_first_session:
  assumes "sorted (map time chart)" and "sorted (frame_times (fs @ [f]))" and "judging f"
  shows "nextNoteIndex (snd (run_frames fs (initial_scene chart)))
           \<le> nextNoteIndex (snd (useFrame f (snd (run_frames fs (initial_scene chart)))))
       \<and> nextNoteIndex (snd (useFrame f (snd (run_frames fs (initial_scene chart)))))
           \<le> length chart
       \<and> (\<forall>i<length chart.
             i < nextNoteIndex (snd (useFrame f (snd (run_frames fs (initial_scene chart)))))
             \<longleftrightarrow> spec_due (frame_time f) (chart ! i))
       \<and> spawn_loop (frame_time f) (snd (run_frames fs (initial_scene chart)))
           = (snd (run_frames fs (initial_scene chart)))
               \<lparr>activeNotes := activeNotes (snd (run_frames fs (initial_scene chart)))
                  @ [nextNoteIndex (snd (run_frames fs (initial_scene chart)))
                     ..<nextNoteIndex (snd (useFrame f (snd (run_frames fs (initial_scene chart)))))],
                nextNoteIndex :=
                  nextNoteIndex (snd (useFrame f (snd (run_frames fs (initial_scene chart)))))\<rparr>
       \<and> sorted_wrt (<) (activeNotes (snd (run_frames fs (initial_scene chart)))
            @ [nextNoteIndex (snd (run_frames fs (initial_scene chart)))
               ..<nextNoteIndex (snd (useFrame f (snd (run_frames fs (initial_scene chart)))))])
       \<and> sorted_wrt (<) (activeNotes (snd (useFrame f (snd (run_frames fs (initial_scene chart))))))
       \<and> set (activeNotes (snd (useFrame f (snd (run_frames fs (initial_scene chart))))))
           \<subseteq> set (activeNotes (snd (run_frames fs (initial_scene chart))))
             \<union> {nextNoteIndex (snd (run_frames fs (initial_scene chart)))
                 ..<nextNoteIndex (snd (useFrame f (snd (run_frames fs (initial_scene chart)))))}
       \<and> (\<forall>g. nextNoteIndex (snd (run_frames fs (initial_scene chart)))
                \<le> nextNoteIndex (snd (useFrame g (snd (run_frames fs (initial_scene chart))))))"
proof -
  define st where "st = snd (run_frames fs (initial_scene chart))"
  define t where "t = frame_time f"
  have ft: "frame_times (fs @ [f]) = frame_times fs @ [t]"
    using assms(3) by (simp add: frame_times_snoc t_def)
  have srt: "sorted (frame_times fs)" and le_t: "\<forall>x\<in>set (frame_times fs). x \<le> t"
    using assms(2) by (auto simp: ft sorted_append)
  note inv = run_from_initial [OF srt, of chart, folded st_def]
  have ok: "scene_ok st" using inv by simp
  have tm: "map time (notesState st) = map time chart" using inv by simp
  have len: "length (notesState st) = length chart" using tm by (metis length_map)
  have nth_time: "\<And>i. i < length chart \<Longrightarrow> time (notesState st ! i) = time (chart ! i)"
  proof -
    fix i assume i: "i < length chart"
    have "map time (notesState st) ! i = map time chart ! i" by (simp add: tm)
    then show "time (notesState st ! i) = time (chart ! i)" using i len by simp
  qed
  have nx: "nextNoteIndex (snd (useFrame f st)) = spawned t st"
    using assms(3) by (simp add: useFrame_next [OF ok] t_def)
  have sp_le: "spawned t st \<le> length chart"
    using ok len spawned_le [of st t] by (simp add: scene_ok_def)
  have c1: "nextNoteIndex st \<le> spawned t st" by (rule spawned_ge)
  have c3: "\<forall>i<length chart. i < spawned t st \<longleftrightarrow> spec_due t (chart ! i)"
  proof (intro allI impI iffI)
    fix i assume il: "i < length chart" and i: "i < spawned t st"
    show "spec_due t (chart ! i)"
    proof (cases "i < nextNoteIndex st")
      case True
      with inv obtain x where "x \<in> set (frame_times fs)" "time (chart ! i) - spawnAheadTime \<le> x"
        by blast
      with le_t have "time (chart ! i) - spawnAheadTime \<le> t" by fastforce
      then show ?thesis by (simp add: spec_due_def spec_lookahead_eq)
    next
      case False
      then have "time (notesState st ! i) - spawnAheadTime \<le> t"
        using i by (intro spawned_due) simp_all
      then show ?thesis using il by (simp add: spec_due_def spec_lookahead_eq nth_time)
    qed
  next
    fix i assume il: "i < length chart" and due: "spec_due t (chart ! i)"
    show "i < spawned t st"
    proof (rule ccontr)
      assume "\<not> i < spawned t st"
      then have ge: "spawned t st \<le> i" by simp
      then have sl: "spawned t st < length (notesState st)" using il len by simp
      have "\<not> time (notesState st ! spawned t st) - spawnAheadTime \<le> t"
        using sl by (rule spawned_stop)
      moreover have "time (chart ! spawned t st) \<le> time (chart ! i)"
        using sorted_nth_mono [OF assms(1), of "spawned t st" i] ge il by simp
      ultimately show False
        using due sl len by (simp add: spec_due_def spec_lookahead_eq nth_time)
    qed
  qed
  have c4: "spawn_loop t st
              = st\<lparr>activeNotes := activeNotes st @ [nextNoteIndex st..<spawned t st],
                   nextNoteIndex := spawned t st\<rparr>"
    by (rule spawn_loop_eq)
  have c5: "sorted_wrt (<) (activeNotes st @ [nextNoteIndex st..<spawned t st])"
    using active_after_spawn_sorted(1) [OF ok, of t] by (simp add: active_after_spawn_def)
  have ok': "scene_ok (snd (useFrame f st))" using ok by (rule useFrame_scene_ok)
  have c6: "sorted_wrt (<) (activeNotes (snd (useFrame f st)))"
    using ok' by (simp add: scene_ok_def)
  have c7: "set (activeNotes (snd (useFrame f st)))
              \<subseteq> set (activeNotes st) \<union> {nextNoteIndex st..<spawned t st}"
    using assms(3) by (auto simp: useFrame_note(3) [OF ok] t_def)
  have c8: "\<forall>g. nextNoteIndex st \<le> nextNoteIndex (snd (useFrame g st))"
    by (simp add: useFrame_next_mono)
  show ?thesis
    unfolding st_def [symmetric] t_def [symmetric] nx
    using c1 sp_le c3 c4 c5 c6 c7 c8 by blast
qed


section \<open>Restarting a session\<close>

lemma startGame_scene:
  "nextNoteIndex (game_scene (startGame ready played a)) = nextNoteIndex (game_scene a)"
  "activeNotes (game_scene (startGame ready played a)) = activeNotes (game_scene a)"
  "length (notesState (game_scene (startGame ready played a)))
     = length (notesState (game_scene a))"
  by (simp_all add: startGame_def Let_def)

lemma startGame_scene_ok:
  "scene_ok (game_scene a) \<Longrightarrow> scene_ok (game_scene (startGame ready played a))"
  by (simp add: scene_ok_def startGame_scene)

lemma run_frames_inactive:
  assumes "scene_ok st" "r < nextNoteIndex st" "r \<notin> set (activeNotes st)"
  shows "notesState (snd (run_frames fs st)) ! r = notesState st ! r
       \<and> events_for r (fst (run_frames fs st)) = []"
  using assms
proof (induction fs arbitrary: st)
  case Nil
  then show ?case by (simp add: events_for_def)
next
  case (Cons f fs)
  define st1 where "st1 = snd (useFrame f st)"
  have ok1: "scene_ok st1" using Cons.prems(1) by (simp add: st1_def useFrame_scene_ok)
  have rn1: "r < nextNoteIndex st1"
    using Cons.prems(2) useFrame_next_mono [of st f] by (simp add: st1_def)
  have na1: "r \<notin> set (activeNotes st1)"
    unfolding st1_def using Cons.prems by (rule useFrame_not_reactivated)
  have "r \<notin> set (active_after_spawn (frame_time f) st)"
    using Cons.prems(2,3) by (simp add: active_after_spawn_def)
  then have d: "frame_decision f st r = Keep" by (simp add: frame_decision_def)
  have n1: "notesState st1 ! r = notesState st ! r"
    by (simp add: st1_def useFrame_note(1) [OF Cons.prems(1)] d)
  have e1: "events_for r (fst (useFrame f st)) = []"
    by (simp add: useFrame_note(2) [OF Cons.prems(1)] d)
  from Cons.IH [OF ok1 rn1 na1] show ?case
    by (simp add: run_frames_fst_Cons run_frames_snd_Cons events_for_append e1 n1
        st1_def [symmetric])
qed

text \<open>
  C10. \<open>startGame\<close> (with the camera ready) resets score, combo, multiplier and health and
  makes every chart note pending again, but leaves the cursor and the active list of the
  mounted scene as they were. In the frames that follow, whatever their clock readings, the
  cursor never goes below the retained value, a note below the retained cursor is in the
  active list only if it was in the retained active list, and a note below the cursor that
  was not retained is never active again: it stays pending and no callback is ever made
  for it.
\<close>

theorem restart_keeps_cursor:
  assumes "scene_ok (game_scene a)"
  shows "score (scoring (startGame True played a)) = 0
       \<and> combo (scoring (startGame True played a)) = 0
       \<and> multiplier (scoring (startGame True played a)) = 1
       \<and> health (scoring (startGame True played a)) = 100
       \<and> (\<forall>n\<in>set (notesState (game_scene (startGame True played a))). pending n)
       \<and> nextNoteIndex (game_scene (startGame True played a)) = nextNoteIndex (game_scene a)
       \<and> activeNotes (game_scene (startGame True played a)) = activeNotes (game_scene a)
       \<and> nextNoteIndex (game_scene a)
           \<le> nextNoteIndex (snd (run_frames fs (game_scene (startGame True played a))))
       \<and> (\<forall>r<nextNoteIndex (game_scene a).
             r \<notin> set (activeNotes (game_scene a)) \<longrightarrow>
               r \<notin> set (activeNotes (snd (run_frames fs (game_scene (startGame True played a)))))
               \<and> notesState (snd (run_frames fs (game_scene (startGame True played a)))) ! r
                   = notesState (game_scene (startGame True played a)) ! r
               \<and> events_for r (fst (run_frames fs (game_scene (startGame True played a)))) = [])"
proof -
  define st where "st = game_scene (startGame True played a)"
  have ok: "scene_ok st" using assms by (simp add: st_def startGame_scene_ok)
  have nx: "nextNoteIndex st = nextNoteIndex (game_scene a)"
    and ac: "activeNotes st = activeNotes (game_scene a)"
    by (simp_all add: st_def startGame_scene)
  have c1: "score (scoring (startGame True played a)) = 0
       \<and> combo (scoring (startGame True played a)) = 0
       \<and> multiplier (scoring (startGame True played a)) = 1
       \<and> health (scoring (startGame True played a)) = 100"
    by (simp add: startGame_def Let_def)
  have c2: "\<forall>n\<in>set (notesState st). pending n"
    by (auto simp: st_def startGame_def Let_def pending_def)
  have c3: "nextNoteIndex (game_scene a) \<le> nextNoteIndex (snd (run_frames fs st))"
    using run_frames_next_mono [of st fs] by (simp add: nx)
  have c4: "\<forall>r<nextNoteIndex (game_scene a).
             r \<notin> set (activeNotes (game_scene a)) \<longrightarrow>
               r \<notin> set (activeNotes (snd (run_frames fs st)))
               \<and> notesState (snd (run_frames fs st)) ! r = notesState st ! r
               \<and> events_for r (fst (run_frames fs st)) = []"
  proof (intro allI impI)
    fix r assume r: "r < nextNoteIndex (game_scene a)" "r \<notin> set (activeNotes (game_scene a))"
    then have r': "r < nextNoteIndex st" "r \<notin> set (activeNotes st)" by (simp_all add: nx ac)
    show "r \<notin> set (activeNotes (snd (run_frames fs st)))
               \<and> notesState (snd (run_frames fs st)) ! r = notesState st ! r
               \<and> events_for r (fst (run_frames fs st)) = []"
      using run_frames_not_reactivated [OF ok r'] run_frames_inactive [OF ok r'] by simp
  qed
  show ?thesis
    using c1 c2 c3 c4 nx ac unfolding st_def by blast
qed

theorem restart_keeps_cursor_witness:
  "scene_ok (game_scene example_lost_app)
   \<and> 0 < nextNoteIndex (game_scene example_lost_app)
   \<and> 0 \<notin> set (activeNotes (game_scene example_lost_app))
   \<and> pending (notesState (game_scene (startGame True True example_lost_app)) ! 0)
   \<and> spec_due 5 (notesState (game_scene (startGame True True example_lost_app)) ! 0)
   \<and> 0 \<notin> set (activeNotes (snd (run_frames [playing_frame 5 example_hands]
                (game_scene (startGame True True example_lost_app)))))
   \<and> events_for 0 (fst (run_frames [playing_frame 5 example_hands]
        (game_scene (startGame True True example_lost_app)))) = []"
proof -
  have h: "scene_ok (game_scene example_lost_app)"
    by (simp add: scene_ok_def example_lost_app_def)
  have r: "0 < nextNoteIndex (game_scene example_lost_app)"
    "0 \<notin> set (activeNotes (game_scene example_lost_app))"
    by (simp_all add: example_lost_app_def)
  have n: "notesState (game_scene (startGame True True example_lost_app)) ! 0
             = example_note\<lparr>hit := False, missed := False\<rparr>"
    by (simp add: startGame_def example_lost_app_def Let_def)
  have p: "pending (notesState (game_scene (startGame True True example_lost_app)) ! 0)"
    unfolding n by (simp add: pending_def)
  have d: "spec_due 5 (notesState (game_scene (startGame True True example_lost_app)) ! 0)"
    unfolding n
    by (simp add: spec_due_def spec_lookahead_def example_note_def SPAWN_Z_def PLAYER_Z_def
        NOTE_SPEED_def)
  from restart_keeps_cursor [OF h, of True "[playing_frame 5 example_hands]"] r
  have "0 \<notin> set (activeNotes (snd (run_frames [playing_frame 5 example_hands]
                (game_scene (startGame True True example_lost_app)))))
   \<and> events_for 0 (fst (run_frames [playing_frame 5 example_hands]
        (game_scene (startGame True True example_lost_app)))) = []"
    by blast
  with h r p d show ?thesis by blast
qed

section \<open>Tier and axis do not influence judgement\<close>

lemma parts_tier_axis:
  "notePos (n\<lparr>tier := T, axis := A\<rparr>) z = notePos n z"
  "goodCut_of (n\<lparr>tier := T, axis := A\<rparr>) v = goodCut_of n v"
  "hand_sample hands (n\<lparr>tier := T, axis := A\<rparr>) = hand_sample hands n"
  "hand_velocity hands (n\<lparr>tier := T, axis := A\<rparr>) = hand_velocity hands n"
  by (simp_all add: notePos_def goodCut_of_def hand_sample_def hand_velocity_def
      split: option.splits)

lemma decide_tier_axis: "decide hands t (n\<lparr>tier := T, axis := A\<rparr>) = decide hands t n"
  by (simp add: decide_def parts_tier_axis split: option.splits)

lemma target_tier_axis: "target_point (n\<lparr>tier := T, axis := A\<rparr>) t = target_point n t"
  by (simp add: target_point_def)

lemma decide_same: "same_gameplay n m \<Longrightarrow> decide hands t n = decide hands t m"
  using decide_tier_axis [where hands = hands and t = t and n = n and T = "tier m" and A = "axis m"]
  by (simp add: same_gameplay_def)

lemma time_same: "same_gameplay n m \<Longrightarrow> time n = time m"
  by (auto simp: same_gameplay_def dest: arg_cong [where f = time])

lemma apply_decision_same:
  "same_gameplay n m \<Longrightarrow> same_gameplay (apply_decision t d n) (apply_decision t d m)"
proof -
  assume s: "same_gameplay n m"
  define T where "T = tier m"
  define A where "A = axis m"
  have m: "m = n\<lparr>tier := T, axis := A\<rparr>" using s by (simp add: same_gameplay_def T_def A_def)
  show ?thesis unfolding m by (cases d) (simp_all add: same_gameplay_def)
qed

lemma alike_times:
  assumes "list_all2 same_gameplay xs ys"
  shows "map time xs = map time ys"
  using assms by (induction rule: list_all2_induct) (simp_all add: time_same)

lemma spawned_alike:
  assumes "scene_alike st1 st2"
  shows "spawned t st1 = spawned t st2"
proof -
  let ?P = "\<lambda>x. x - spawnAheadTime \<le> t"
  have tm: "map time (notesState st1) = map time (notesState st2)"
    using assms by (simp add: scene_alike_def alike_times)
  have nx: "nextNoteIndex st1 = nextNoteIndex st2" using assms by (simp add: scene_alike_def)
  have l: "\<And>xs. length (takeWhile (\<lambda>n. time n - spawnAheadTime \<le> t) xs)
                  = length (takeWhile ?P (map time xs))"
    by (simp add: takeWhile_map comp_def)
  have "map time (drop (nextNoteIndex st1) (notesState st1))
          = map time (drop (nextNoteIndex st2) (notesState st2))"
    by (simp add: drop_map [symmetric] tm nx)
  then show ?thesis by (simp add: spawned_def l nx)
qed

lemma useFrame_alike:
  assumes "scene_ok st1" "scene_alike st1 st2"
  shows "fst (useFrame f st1) = fst (useFrame f st2)
       \<and> scene_alike (snd (useFrame f st1)) (snd (useFrame f st2))"
proof -
  have l2: "list_all2 same_gameplay (notesState st1) (notesState st2)"
    and ac: "activeNotes st1 = activeNotes st2"
    and nx: "nextNoteIndex st1 = nextNoteIndex st2"
    using assms(2) by (simp_all add: scene_alike_def)
  have len: "length (notesState st1) = length (notesState st2)"
    using l2 by (rule list_all2_lengthD)
  have ok2: "scene_ok st2" using assms(1) by (simp add: scene_ok_def ac nx len)
  show ?thesis
  proof (cases "judging f")
    case False
    have "fst (useFrame f st1) = fst (useFrame f st2)"
      using False by (auto simp: useFrame_def judging_def Let_def split: option.splits)
    then show ?thesis using False assms(2) by (simp add: scene_alike_def useFrame_idle)
  next
    case True
    define t where "t = frame_time f"
    define A where "A = active_after_spawn t st1"
    have sp: "spawned t st1 = spawned t st2" using assms(2) by (rule spawned_alike)
    have A2: "active_after_spawn t st2 = A"
      by (simp add: A_def active_after_spawn_def ac nx sp)
    have Alt: "\<forall>r\<in>set A. r < length (notesState st1)"
      using active_after_spawn_sorted(2,3) [OF assms(1), of t] by (auto simp: A_def)
    have same: "\<And>r. r < length (notesState st1) \<Longrightarrow>
                  same_gameplay (notesState st1 ! r) (notesState st2 ! r)"
      using l2 by (simp add: list_all2_conv_all_nth)
    have dec: "\<And>r. r \<in> set A \<Longrightarrow>
                 decide (handPositionsRef f) t (notesState st1 ! r)
                   = decide (handPositionsRef f) t (notesState st2 ! r)"
      using Alt same by (simp add: decide_same)
    note u1 = useFrame_judging [OF True assms(1), folded t_def, folded A_def]
    note u2 = useFrame_judging [OF True ok2, folded t_def, unfolded A2]
    have e: "fst (useFrame f st1) = fst (useFrame f st2)"
      unfolding u1 u2 judged_events_def
      by (rule arg_cong [where f = concat], rule map_cong) (simp_all add: dec)
    have k: "activeNotes (snd (useFrame f st1)) = activeNotes (snd (useFrame f st2))"
      unfolding u1 u2 kept_def by (rule filter_cong) (simp_all add: dec)
    have n: "nextNoteIndex (snd (useFrame f st1)) = nextNoteIndex (snd (useFrame f st2))"
      by (simp add: u1 u2 sp)
    have "list_all2 same_gameplay (notesState (snd (useFrame f st1)))
            (notesState (snd (useFrame f st2)))"
    proof (rule list_all2_all_nthI)
      show "length (notesState (snd (useFrame f st1))) = length (notesState (snd (useFrame f st2)))"
        by (simp add: u1 u2 len)
    next
      fix j assume "j < length (notesState (snd (useFrame f st1)))"
      then have j: "j < length (notesState st1)" by (simp add: u1)
      show "same_gameplay (notesState (snd (useFrame f st1)) ! j)
              (notesState (snd (useFrame f st2)) ! j)"
      proof (cases "j \<in> set A")
        case True
        then show ?thesis
          using same [OF j] by (simp add: u1 u2 judged_note_def dec apply_decision_same)
      next
        case False
        then show ?thesis using same [OF j] by (simp add: u1 u2 judged_note_def)
      qed
    qed
    with e k n show ?thesis by (simp add: scene_alike_def)
  qed
qed

lemma run_frames_alike:
  assumes "scene_ok st1" "scene_alike st1 st2"
  shows "fst (run_frames fs st1) = fst (run_frames fs st2)
       \<and> scene_alike (snd (run_frames fs st1)) (snd (run_frames fs st2))"
  using assms
proof (induction fs arbitrary: st1 st2)
  case Nil
  then show ?case by simp
next
  case (Cons f fs)
  note u = useFrame_alike [OF Cons.prems, of f]
  have ok: "scene_ok (snd (useFrame f st1))" using Cons.prems(1) by (rule useFrame_scene_ok)
  from Cons.IH [OF ok] u show ?case
    by (simp add: run_frames_fst_Cons run_frames_snd_Cons)
qed


lemma same_gameplay_flags:
  "same_gameplay n m \<Longrightarrow> hit n = hit m \<and> missed n = missed m \<and> hitTime n = hitTime m"
proof -
  assume "same_gameplay n m"
  then have m: "m = n\<lparr>tier := tier m, axis := axis m\<rparr>" by (simp add: same_gameplay_def)
  show ?thesis by (subst m, subst (2) m, subst (3) m) simp
qed

text \<open>
  C9. Take two scenes whose charts differ at most in the tier and axis fields of their
  notes (same active list, same cursor) and run both through the same frames. Then both
  runs make the same callbacks, in the same order and in the same frames (the same notes
  hit or missed, with the same quality), and end in scenes that again differ at most in
  tier and axis: every note has the same hit and missed flags and the same hit time in
  both. The decision taken for a single note and its target point do not depend on its
  tier or axis.
\<close>

theorem tier_axis_noninterference:
  assumes "scene_ok st1" and "scene_alike st1 st2"
  shows "fst (run_frames fs st1) = fst (run_frames fs st2)
       \<and> fst (useFrame f (snd (run_frames fs st1))) = fst (useFrame f (snd (run_frames fs st2)))
       \<and> scene_alike (snd (run_frames fs st1)) (snd (run_frames fs st2))
       \<and> (\<forall>j<length (notesState st1).
             hit (notesState (snd (run_frames fs st1)) ! j)
               = hit (notesState (snd (run_frames fs st2)) ! j)
             \<and> missed (notesState (snd (run_frames fs st1)) ! j)
                 = missed (notesState (snd (run_frames fs st2)) ! j)
             \<and> hitTime (notesState (snd (run_frames fs st1)) ! j)
                 = hitTime (notesState (snd (run_frames fs st2)) ! j))
       \<and> decide hands t (n\<lparr>tier := T, axis := A\<rparr>) = decide hands t n
       \<and> target_point (n\<lparr>tier := T, axis := A\<rparr>) t = target_point n t"
proof -
  note r = run_frames_alike [OF assms, of fs]
  have ok: "scene_ok (snd (run_frames fs st1))" using assms(1) by (rule run_frames_scene_ok)
  have al: "scene_alike (snd (run_frames fs st1)) (snd (run_frames fs st2))" using r by simp
  have u: "fst (useFrame f (snd (run_frames fs st1))) = fst (useFrame f (snd (run_frames fs st2)))"
    using useFrame_alike [OF ok al, of f] by simp
  have len: "length (notesState (snd (run_frames fs st1))) = length (notesState st1)"
    using assms(1)
  proof (induction fs arbitrary: st1)
    case Nil
    then show ?case by simp
  next
    case (Cons g gs)
    have "scene_ok (snd (useFrame g st1))" using Cons.prems by (rule useFrame_scene_ok)
    from Cons.IH [OF this] Cons.prems show ?case
      by (simp add: run_frames_snd_Cons useFrame_length)
  qed
  have fl: "\<forall>j<length (notesState st1).
             hit (notesState (snd (run_frames fs st1)) ! j)
               = hit (notesState (snd (run_frames fs st2)) ! j)
             \<and> missed (notesState (snd (run_frames fs st1)) ! j)
                 = missed (notesState (snd (run_frames fs st2)) ! j)
             \<and> hitTime (notesState (snd (run_frames fs st1)) ! j)
                 = hitTime (notesState (snd (run_frames fs st2)) ! j)"
  proof (intro allI impI)
    fix j assume "j < length (notesState st1)"
    then have "same_gameplay (notesState (snd (run_frames fs st1)) ! j)
                 (notesState (snd (run_frames fs st2)) ! j)"
      using al len by (simp add: scene_alike_def list_all2_conv_all_nth)
    then show "hit (notesState (snd (run_frames fs st1)) ! j)
               = hit (notesState (snd (run_frames fs st2)) ! j)
             \<and> missed (notesState (snd (run_frames fs st1)) ! j)
                 = missed (notesState (snd (run_frames fs st2)) ! j)
             \<and> hitTime (notesState (snd (run_frames fs st1)) ! j)
                 = hitTime (notesState (snd (run_frames fs st2)) ! j)"
      by (rule same_gameplay_flags)
  qed
  show ?thesis
    using r u fl decide_tier_axis target_tier_axis by blast
qed

theorem tier_axis_noninterference_witness:
  "scene_ok (initial_scene [example_note])
   \<and> scene_alike (initial_scene [example_note])
        (initial_scene [example_note\<lparr>tier := TIER_1, axis := NETWORK\<rparr>])
   \<and> fst (run_frames [playing_frame 5 example_hands] (initial_scene [example_note]))
       = fst (run_frames [playing_frame 5 example_hands]
               (initial_scene [example_note\<lparr>tier := TIER_1, axis := NETWORK\<rparr>]))"
proof -
  have a: "scene_alike (initial_scene [example_note])
        (initial_scene [example_note\<lparr>tier := TIER_1, axis := NETWORK\<rparr>])"
    by (simp add: scene_alike_def same_gameplay_def initial_scene_def)
  from tier_axis_noninterference [OF example_scene_ok a, of "[playing_frame 5 example_hands]"]
  have "fst (run_frames [playing_frame 5 example_hands] (initial_scene [example_note]))
       = fst (run_frames [playing_frame 5 example_hands]
               (initial_scene [example_note\<lparr>tier := TIER_1, axis := NETWORK\<rparr>]))"
    by blast
  with example_scene_ok a show ?thesis by blast
qed

section \<open>Nobody playing the demo chart\<close>

lemma demo_spawned: "spawned 8 (initial_scene demo_chart_head) = 8"
  by (simp add: spawned_def initial_scene_def demo_chart_head_def spawnAheadTime_def
      SPAWN_Z_def PLAYER_Z_def NOTE_SPEED_def BEAT_TIME_def SONG_BPM_def)

lemma upt8: "[0..<8] = [0, 1, 2, 3, 4, 5, 6, 7::nat]"
  by code_simp

lemma demo_idle_frame:
  "fst (useFrame (playing_frame 8 absent_hands) (initial_scene demo_chart_head))
     = [Miss 7, Miss 6, Miss 5, Miss 4, Miss 3, Miss 2, Miss 1, Miss 0]"
proof -
  have a: "active_after_spawn 8 (initial_scene demo_chart_head) = [0, 1, 2, 3, 4, 5, 6, 7]"
    by (simp add: active_after_spawn_def demo_spawned) (simp add: initial_scene_def upt8)
  have n: "notesState (initial_scene demo_chart_head) = demo_chart_head"
    by (simp add: initial_scene_def)
  have d: "\<And>r. r < 8 \<Longrightarrow> decide absent_hands 8 (demo_chart_head ! r) = Expire"
  proof -
    fix r :: nat assume "r < 8"
    then consider "r = 0" | "r = 1" | "r = 2" | "r = 3" | "r = 4" | "r = 5" | "r = 6" | "r = 7"
      by linarith
    then show "decide absent_hands 8 (demo_chart_head ! r) = Expire"
      by cases
        (simp_all add: demo_chart_head_def decide_def currentZ_def PLAYER_Z_def NOTE_SPEED_def
          MISS_Z_def BEAT_TIME_def SONG_BPM_def)
  qed
  show ?thesis
    by (simp add: useFrame_judging(1) [OF example_judging example_scene_ok] example_frame_time
        judged_events_def a n d)
qed

text \<open>
  C5, as stated, fails. With no hands detected and the frame callback running at 8 s on
  the first eight notes of the demo chart, all eight notes expire; the seventh miss brings
  health to 0 and requests the loss, and the eighth, with health still 0, requests it a
  second time.
\<close>

theorem loss_requested_twice_counterexample:
  "endGameRequests
     (score_frame (fst (useFrame (playing_frame 8 absent_hands) (initial_scene demo_chart_head)))
        initial_score) = 2"
  by (simp add: demo_idle_frame score_frame_def run_events_def initial_score_def
      handleNoteMiss_def Let_def)

section \<open>The spawn scheduler at every frame\<close>

lemma first_session_scene:
  "nextNoteIndex (snd (useFrame (playing_frame 6 absent_hands) (initial_scene [example_note]))) = 1"
  "activeNotes (snd (useFrame (playing_frame 6 absent_hands) (initial_scene [example_note]))) = []"
  "notesState (snd (useFrame (playing_frame 6 absent_hands) (initial_scene [example_note])))
     = [example_note\<lparr>missed := True\<rparr>]"
proof -
  let ?st0 = "initial_scene [example_note]"
  let ?f = "playing_frame 6 absent_hands"
  note u = useFrame_judging [OF example_judging example_scene_ok, of 6 absent_hands "[example_note]",
      unfolded example_frame_time]
  have sp: "spawned 6 ?st0 = 1"
    by (simp add: spawned_def initial_scene_def example_note_def spawnAheadTime_def
        SPAWN_Z_def PLAYER_Z_def NOTE_SPEED_def)
  have a: "active_after_spawn 6 ?st0 = [0]"
    by (simp add: active_after_spawn_def sp) (simp add: initial_scene_def)
  have n: "notesState ?st0 = [example_note]" by (simp add: initial_scene_def)
  have d: "decide absent_hands 6 example_note = Expire"
    by (simp add: decide_def example_note_def currentZ_def PLAYER_Z_def NOTE_SPEED_def MISS_Z_def)
  show "nextNoteIndex (snd (useFrame ?f ?st0)) = 1" by (simp add: u sp)
  show "activeNotes (snd (useFrame ?f ?st0)) = []" by (simp add: u a n kept_def d)
  have l: "length (notesState (snd (useFrame ?f ?st0))) = 1" by (simp add: u n)
  have z: "notesState (snd (useFrame ?f ?st0)) ! 0 = example_note\<lparr>missed := True\<rparr>"
    by (simp add: u a n judged_note_def d)
  show "notesState (snd (useFrame ?f ?st0)) = [example_note\<lparr>missed := True\<rparr>]"
    using l z by (cases "notesState (snd (useFrame ?f ?st0))") auto
qed

lemma example_restart_scene:
  "nextNoteIndex (game_scene example_restart_app) = 1"
  "activeNotes (game_scene example_restart_app) = []"
  "notesState (game_scene example_restart_app)
     = [example_note\<lparr>hit := False, missed := False\<rparr>]"
  "scene_ok (game_scene example_restart_app)"
  by (simp_all add: example_restart_app_def startGame_def Let_def first_session_scene
      scene_ok_def)

text \<open>
  C3, as stated, fails for the frames of a second session. After a first session in which
  the only note was promoted and missed, \<open>startGame\<close> makes the note pending again and the
  clock starts over, but the cursor stays past the note: in a frame at 0.5 s the note is
  behind the cursor although \<open>note.time - lookahead \<le> now\<close> does not hold, and in a frame
  at 5 s it holds, the note is pending and not active, and the frame does not promote it.
\<close>

theorem spawn_after_restart_counterexample:
  "sorted (map time (notesState (game_scene example_restart_app)))
   \<and> pending (notesState (game_scene example_restart_app) ! 0)
   \<and> 0 \<notin> set (activeNotes (game_scene example_restart_app))
   \<and> spec_due 5 (notesState (game_scene example_restart_app) ! 0)
   \<and> 0 \<notin> set (activeNotes (snd (useFrame (playing_frame 5 example_hands)
                                     (game_scene example_restart_app))))
   \<and> \<not> spec_due 0.5 (notesState (game_scene example_restart_app) ! 0)
   \<and> 0 < nextNoteIndex (snd (useFrame (playing_frame 0.5 example_hands)
                                 (game_scene example_restart_app)))"
proof -
  let ?st = "game_scene example_restart_app"
  note e = example_restart_scene
  have c1: "sorted (map time (notesState ?st))" by (simp add: e)
  have c2: "pending (notesState ?st ! 0)" by (simp add: e pending_def)
  have c3: "0 \<notin> set (activeNotes ?st)" by (simp add: e)
  have c4: "spec_due 5 (notesState ?st ! 0)"
    by (simp add: e spec_due_def spec_lookahead_def example_note_def SPAWN_Z_def PLAYER_Z_def
        NOTE_SPEED_def)
  have c5: "0 \<notin> set (activeNotes (snd (useFrame (playing_frame 5 example_hands) ?st)))"
    by (rule useFrame_not_reactivated [OF e(4)]) (simp_all add: e)
  have c6: "\<not> spec_due 0.5 (notesState ?st ! 0)"
    by (simp add: e spec_due_def spec_lookahead_def example_note_def SPAWN_Z_def PLAYER_Z_def
        NOTE_SPEED_def)
  have c7: "0 < nextNoteIndex (snd (useFrame (playing_frame 0.5 example_hands) ?st))"
    using useFrame_next_mono [of ?st "playing_frame 0.5 example_hands"] by (simp add: e)
  show ?thesis using c1 c2 c3 c4 c5 c6 c7 by blast
qed


text \<open>
  C3, amended. In every frame that reaches the spawn loop, at time \<open>t\<close> and from any
  state the scene can be in: the cursor does not move back and stays within the chart; the
  loop appends exactly the indices from the old cursor up to the new one, in chart order;
  every note it promotes has \<open>note.time - lookahead \<le> t\<close> and the first note it leaves
  has not, so over a chart sorted by time a note at or after the old cursor is promoted
  exactly when \<open>note.time - lookahead \<le> t\<close>; the active list stays strictly increasing
  (no note twice) and nothing behind the old cursor is added; and no frame whatever moves
  the cursor back. While the clock readings have not decreased since the initial scene,
  the notes behind the cursor after the frame are exactly those with
  \<open>note.time - lookahead \<le> t\<close>.
\<close>

theorem spawn_scheduler:
  assumes "scene_ok st" and "judging f"
  shows "nextNoteIndex st \<le> nextNoteIndex (snd (useFrame f st))
       \<and> nextNoteIndex (snd (useFrame f st)) \<le> length (notesState st)
       \<and> spawn_loop (frame_time f) st
           = st\<lparr>activeNotes := activeNotes st
                    @ [nextNoteIndex st..<nextNoteIndex (snd (useFrame f st))],
                 nextNoteIndex := nextNoteIndex (snd (useFrame f st))\<rparr>
       \<and> (\<forall>i. nextNoteIndex st \<le> i \<and> i < nextNoteIndex (snd (useFrame f st)) \<longrightarrow>
               spec_due (frame_time f) (notesState st ! i))
       \<and> (nextNoteIndex (snd (useFrame f st)) < length (notesState st) \<longrightarrow>
             \<not> spec_due (frame_time f) (notesState st ! nextNoteIndex (snd (useFrame f st))))
       \<and> (sorted (map time (notesState st)) \<longrightarrow>
             (\<forall>i<length (notesState st). nextNoteIndex st \<le> i \<longrightarrow>
                (i < nextNoteIndex (snd (useFrame f st))
                  \<longleftrightarrow> spec_due (frame_time f) (notesState st ! i))))
       \<and> sorted_wrt (<) (activeNotes st
            @ [nextNoteIndex st..<nextNoteIndex (snd (useFrame f st))])
       \<and> sorted_wrt (<) (activeNotes (snd (useFrame f st)))
       \<and> set (activeNotes (snd (useFrame f st)))
           \<subseteq> set (activeNotes st) \<union> {nextNoteIndex st..<nextNoteIndex (snd (useFrame f st))}
       \<and> (\<forall>g. nextNoteIndex st \<le> nextNoteIndex (snd (useFrame g st)))
       \<and> (\<forall>chart fs.
             sorted (map time chart) \<and> sorted (frame_times (fs @ [f]))
             \<and> st = snd (run_frames fs (initial_scene chart)) \<longrightarrow>
               (\<forall>i<length chart.
                  i < nextNoteIndex (snd (useFrame f st))
                  \<longleftrightarrow> spec_due (frame_time f) (chart ! i)))"
proof -
  define t where "t = frame_time f"
  have nx: "nextNoteIndex (snd (useFrame f st)) = spawned t st"
    using assms by (simp add: useFrame_next t_def)
  have c1: "nextNoteIndex st \<le> spawned t st" by (rule spawned_ge)
  have c2: "spawned t st \<le> length (notesState st)"
    using assms(1) by (simp add: scene_ok_def spawned_le)
  have c3: "spawn_loop t st
              = st\<lparr>activeNotes := activeNotes st @ [nextNoteIndex st..<spawned t st],
                   nextNoteIndex := spawned t st\<rparr>"
    by (rule spawn_loop_eq)
  have c4: "\<forall>i. nextNoteIndex st \<le> i \<and> i < spawned t st \<longrightarrow> spec_due t (notesState st ! i)"
    using spawned_due [of st _ t] by (simp add: spec_due_def spec_lookahead_eq)
  have c5: "spawned t st < length (notesState st) \<longrightarrow>
              \<not> spec_due t (notesState st ! spawned t st)"
    using spawned_stop [of t st] by (simp add: spec_due_def spec_lookahead_eq)
  have c6: "sorted (map time (notesState st)) \<longrightarrow>
             (\<forall>i<length (notesState st). nextNoteIndex st \<le> i \<longrightarrow>
                (i < spawned t st \<longleftrightarrow> spec_due t (notesState st ! i)))"
  proof (intro impI allI iffI)
    fix i assume "nextNoteIndex st \<le> i" "i < spawned t st"
    then show "spec_due t (notesState st ! i)" using c4 by blast
  next
    fix i assume srt: "sorted (map time (notesState st))" and il: "i < length (notesState st)"
      and due: "spec_due t (notesState st ! i)"
    show "i < spawned t st"
    proof (rule ccontr)
      assume "\<not> i < spawned t st"
      then have ge: "spawned t st \<le> i" by simp
      then have sl: "spawned t st < length (notesState st)" using il by simp
      have "map time (notesState st) ! spawned t st \<le> map time (notesState st) ! i"
        using sorted_nth_mono [OF srt, of "spawned t st" i] ge il by simp
      then have "time (notesState st ! spawned t st) \<le> time (notesState st ! i)"
        using sl il by simp
      with due have "spec_due t (notesState st ! spawned t st)" by (simp add: spec_due_def)
      with c5 sl show False by blast
    qed
  qed
  have c7: "sorted_wrt (<) (activeNotes st @ [nextNoteIndex st..<spawned t st])"
    using active_after_spawn_sorted(1) [OF assms(1), of t] by (simp add: active_after_spawn_def)
  have "scene_ok (snd (useFrame f st))" using assms(1) by (rule useFrame_scene_ok)
  then have c8: "sorted_wrt (<) (activeNotes (snd (useFrame f st)))" by (simp add: scene_ok_def)
  have c9: "set (activeNotes (snd (useFrame f st)))
              \<subseteq> set (activeNotes st) \<union> {nextNoteIndex st..<spawned t st}"
    using assms(2) by (auto simp: useFrame_note(3) [OF assms(1)] t_def)
  have c10: "\<forall>g. nextNoteIndex st \<le> nextNoteIndex (snd (useFrame g st))"
    by (simp add: useFrame_next_mono)
  have c11: "\<forall>chart fs.
             sorted (map time chart) \<and> sorted (frame_times (fs @ [f]))
             \<and> st = snd (run_frames fs (initial_scene chart)) \<longrightarrow>
               (\<forall>i<length chart. i < nextNoteIndex (snd (useFrame f st)) \<longleftrightarrow> spec_due t (chart ! i))"
  proof (rule allI, rule allI, rule impI)
    fix chart fs
    assume h: "sorted (map time chart) \<and> sorted (frame_times (fs @ [f]))
               \<and> st = snd (run_frames fs (initial_scene chart))"
    from spawn_first_session [of chart fs f] h assms(2)
    show "\<forall>i<length chart. i < nextNoteIndex (snd (useFrame f st)) \<longleftrightarrow> spec_due t (chart ! i)"
      by (simp add: t_def)
  qed
  show ?thesis
    unfolding t_def [symmetric] nx
    using c1 c2 c3 c4 c5 c6 c7 c8 c9 c10 c11 [unfolded nx] by blast
qed

theorem spawn_scheduler_witness:
  "scene_ok (snd (run_frames [playing_frame 1 absent_hands] (initial_scene [example_note])))
   \<and> judging (playing_frame 5 example_hands)
   \<and> sorted (map time [example_note])
   \<and> sorted (frame_times ([playing_frame 1 absent_hands] @ [playing_frame 5 example_hands]))
   \<and> spec_due 5 ([example_note] ! 0)
   \<and> 0 < nextNoteIndex (snd (useFrame (playing_frame 5 example_hands)
             (snd (run_frames [playing_frame 1 absent_hands] (initial_scene [example_note])))))"
proof -
  let ?f = "playing_frame 5 example_hands"
  let ?fs = "[playing_frame 1 absent_hands]"
  let ?st = "snd (run_frames ?fs (initial_scene [example_note]))"
  have h0: "scene_ok ?st" by (rule run_frames_scene_ok) (rule example_scene_ok)
  have h1: "sorted (map time [example_note])" by simp
  have h2: "sorted (frame_times (?fs @ [?f]))"
    by (simp add: frame_times_def example_judging example_frame_time)
  have h3: "judging ?f" by (rule example_judging)
  have d: "spec_due 5 ([example_note] ! 0)"
    by (simp add: spec_due_def spec_lookahead_def example_note_def SPAWN_Z_def PLAYER_Z_def
        NOTE_SPEED_def)
  from spawn_scheduler [OF h0 h3] h1 h2
  have "\<forall>i<length [example_note].
          i < nextNoteIndex (snd (useFrame ?f ?st)) \<longleftrightarrow> spec_due (frame_time ?f) ([example_note] ! i)"
    by blast
  with d have "0 < nextNoteIndex (snd (useFrame ?f ?st))"
    by (simp add: example_frame_time)
  with h0 h1 h2 h3 d show ?thesis by blast
qed

end
